theory Spec2Isabelle
  imports Complex_Main
begin

section \<open>chrocalc: genes, chromosomes and the symbol table\<close>

text \<open>
  The program evolves lists of 4-character binary strings (genes) towards an arithmetic
  expression with a given value. A gene is a Python \<^verbatim>\<open>str\<close>, a chromosome a Python
  list of genes. The expression is evaluated in Python floats, whose arithmetic is a
  parameter of the model (section ``Python floats'').
\<close>

datatype error =
  ValueError | KeyError | IndexError | TypeError | ZeroDivisionError | OverflowError

type_synonym gene = string
type_synonym chromosome = "gene list"

text \<open>The dictionary \<^verbatim>\<open>GREYCODE\<close>, in insertion order (the order of \<^verbatim>\<open>keys()\<close>).\<close>

definition GREYCODE :: "(gene \<times> string) list" where
  "GREYCODE =
    [(''0000'', ''0''), (''0001'', ''1''), (''0010'', ''2''), (''0011'', ''3''),
     (''0100'', ''4''), (''0101'', ''5''), (''0110'', ''6''), (''0111'', ''7''),
     (''1000'', ''8''), (''1001'', ''9''), (''1010'', ''+''), (''1011'', ''-''),
     (''1100'', ''*''), (''1101'', ''/'')]"

definition GREYCODE_keys :: "gene list" where
  "GREYCODE_keys = map fst GREYCODE"

text \<open>\<^verbatim>\<open>GREYCODE[g]\<close>: a missing key raises KeyError.\<close>

definition GREYCODE_lookup :: "gene \<Rightarrow> error + string" where
  "GREYCODE_lookup g = (case map_of GREYCODE g of None \<Rightarrow> Inl KeyError | Some v \<Rightarrow> Inr v)"

text \<open>
  \<^verbatim>\<open>str.isdigit()\<close>: the string is not empty and all its characters are digits.
  Strings here are byte strings; the decimal digits are the ASCII ones.
\<close>

definition isdigit :: "string \<Rightarrow> bool" where
  "isdigit s \<longleftrightarrow> s \<noteq> [] \<and> list_all (\<lambda>c. c \<in> set ''0123456789'') s"

subsection \<open>Token sequences\<close>

definition digit_symbols :: "string list" where
  "digit_symbols = map (\<lambda>c. [c]) ''0123456789''"

definition operator_symbols :: "string list" where
  "operator_symbols = [''+'', ''-'', ''*'', ''/'']"

definition is_digit_token :: "string \<Rightarrow> bool" where
  "is_digit_token s \<longleftrightarrow> s \<in> set digit_symbols"

definition is_operator_token :: "string \<Rightarrow> bool" where
  "is_operator_token s \<longleftrightarrow> s \<in> set operator_symbols"

text \<open>
  A well-formed token sequence: digit, operator, digit, ..., digit. It starts and ends
  with a digit and is never empty.
\<close>

fun well_formed :: "string list \<Rightarrow> bool" where
  "well_formed [] = False"
| "well_formed [d] = is_digit_token d"
| "well_formed (d # op # rest) =
     (is_digit_token d \<and> is_operator_token op \<and> well_formed rest)"

section \<open>The decoder\<close>

text \<open>
  The loop of \<^verbatim>\<open>decode\<close> over the genes, with its two variables \<^verbatim>\<open>output\<close> and
  \<^verbatim>\<open>now_operator\<close>. A gene that is not a key of the table raises KeyError at once.
\<close>

fun decode_scan :: "string list \<Rightarrow> bool \<Rightarrow> chromosome \<Rightarrow> error + string list" where
  "decode_scan output now_operator [] = Inr output"
| "decode_scan output now_operator (g # gs) =
     (case GREYCODE_lookup g of
        Inl e \<Rightarrow> Inl e
      | Inr decoded_gene \<Rightarrow>
          if now_operator \<and> \<not> isdigit decoded_gene
          then decode_scan (output @ [decoded_gene]) False gs
          else if \<not> now_operator \<and> isdigit decoded_gene
          then decode_scan (output @ [decoded_gene]) True gs
          else decode_scan output now_operator gs)"

definition decode :: "chromosome \<Rightarrow> error + string list" where
  "decode chromosome =
     (case decode_scan [] False chromosome of
        Inl e \<Rightarrow> Inl e
      | Inr output \<Rightarrow>
          if output \<noteq> [] \<and> \<not> isdigit (last output) then Inr (butlast output)
          else Inr output)"

subsection \<open>Symbols of the table\<close>

lemma GREYCODE_lookup_valid:
  assumes "g \<in> set GREYCODE_keys"
  shows "\<exists>v. GREYCODE_lookup g = Inr v \<and>
           ((isdigit v \<and> is_digit_token v) \<or> (\<not> isdigit v \<and> is_operator_token v))"
  using assms
  by (auto simp: GREYCODE_keys_def GREYCODE_def GREYCODE_lookup_def isdigit_def
      is_digit_token_def is_operator_token_def digit_symbols_def operator_symbols_def)

lemma digit_token_isdigit: "is_digit_token s \<Longrightarrow> isdigit s"
  by (auto simp: is_digit_token_def digit_symbols_def isdigit_def)

lemma operator_token_not_isdigit: "is_operator_token s \<Longrightarrow> \<not> isdigit s"
  by (auto simp: is_operator_token_def operator_symbols_def isdigit_def)

subsection \<open>The decoder's output alternates\<close>

lemma well_formed_snoc2:
  "well_formed w \<Longrightarrow> is_operator_token op \<Longrightarrow> is_digit_token d \<Longrightarrow>
   well_formed (w @ [op, d])"
  by (induction w rule: well_formed.induct) auto

lemma well_formed_last_digit: "well_formed w \<Longrightarrow> is_digit_token (last w)"
  by (induction w rule: well_formed.induct) auto

text \<open>
  The loop invariant: when an operator is expected the output is well formed; when a
  digit is expected the output is empty or a well-formed sequence followed by one
  operator.
\<close>

definition decode_inv :: "string list \<Rightarrow> bool \<Rightarrow> bool" where
  "decode_inv output now_operator \<longleftrightarrow>
     (if now_operator then well_formed output
      else output = [] \<or>
           (\<exists>w op. output = w @ [op] \<and> well_formed w \<and> is_operator_token op))"

lemma decode_inv_digit:
  assumes "decode_inv acc False" "is_digit_token d"
  shows "decode_inv (acc @ [d]) True"
proof (cases "acc = []")
  case True
  with assms show ?thesis by (simp add: decode_inv_def)
next
  case False
  with assms obtain w op where "acc = w @ [op]" "well_formed w" "is_operator_token op"
    by (auto simp: decode_inv_def)
  with assms(2) show ?thesis
    using well_formed_snoc2 [of w op d] by (simp add: decode_inv_def)
qed

lemma decode_inv_operator:
  assumes "decode_inv acc True" "is_operator_token op"
  shows "decode_inv (acc @ [op]) False"
  using assms by (auto simp: decode_inv_def)

lemma decode_scan_inv:
  assumes "set c \<subseteq> set GREYCODE_keys" "decode_inv acc now_operator"
  shows "\<exists>out flag. decode_scan acc now_operator c = Inr out \<and> decode_inv out flag"
  using assms
proof (induction c arbitrary: acc now_operator)
  case Nil
  then show ?case by auto
next
  case (Cons g gs)
  from Cons.prems(1) have g: "g \<in> set GREYCODE_keys" and gs: "set gs \<subseteq> set GREYCODE_keys"
    by auto
  from GREYCODE_lookup_valid [OF g] obtain v where
    v: "GREYCODE_lookup g = Inr v"
       "(isdigit v \<and> is_digit_token v) \<or> (\<not> isdigit v \<and> is_operator_token v)"
    by blast
  show ?case
  proof (cases "now_operator \<and> \<not> isdigit v")
    case True
    with v(2) Cons.prems(2) have "decode_inv (acc @ [v]) False"
      by (auto intro: decode_inv_operator)
    from Cons.IH [OF gs this] True v(1) show ?thesis by simp
  next
    case notop: False
    show ?thesis
    proof (cases "\<not> now_operator \<and> isdigit v")
      case True
      with v(2) Cons.prems(2) have "decode_inv (acc @ [v]) True"
        by (auto intro: decode_inv_digit)
      from Cons.IH [OF gs this] True notop v(1) show ?thesis by simp
    next
      case False
      from Cons.IH [OF gs Cons.prems(2)] False notop v(1) show ?thesis by auto
    qed
  qed
qed

text \<open>
  Claim C3. For every chromosome whose genes are all keys of the symbol table, decode
  returns (without KeyError) a token sequence that is empty or alternates digit, operator,
  digit, ..., digit: it starts and ends with a digit and never ends in an operator.
\<close>

theorem decode_empty_or_well_formed:
  assumes "set c \<subseteq> set GREYCODE_keys"
  shows "\<exists>out. decode c = Inr out \<and> (out = [] \<or> well_formed out)"
proof -
  have "decode_inv [] False" by (simp add: decode_inv_def)
  from decode_scan_inv [OF assms this] obtain out flag where
    scan: "decode_scan [] False c = Inr out" and inv: "decode_inv out flag"
    by blast
  show ?thesis
  proof (cases flag)
    case True
    with inv have wf: "well_formed out" by (simp add: decode_inv_def)
    then have "out \<noteq> []" by auto
    moreover from wf have "isdigit (last out)"
      by (intro digit_token_isdigit well_formed_last_digit)
    ultimately show ?thesis using scan wf by (simp add: decode_def)
  next
    case False
    with inv consider "out = []"
      | w op where "out = w @ [op]" "well_formed w" "is_operator_token op"
      by (auto simp: decode_inv_def)
    then show ?thesis
    proof cases
      case 1
      with scan show ?thesis by (simp add: decode_def)
    next
      case 2
      then have "\<not> isdigit (last out)" by (simp add: operator_token_not_isdigit)
      with 2 scan show ?thesis by (simp add: decode_def)
    qed
  qed
qed

theorem decode_empty_or_well_formed_witness:
  "set [''0010'', ''1010'', ''1100'', ''0011'', ''1100''] \<subseteq> set GREYCODE_keys \<and>
   decode [''0010'', ''1010'', ''1100'', ''0011'', ''1100''] = Inr [''2'', ''+'', ''3''] \<and>
   well_formed [''2'', ''+'', ''3'']"
proof -
  have h: "set [''0010'', ''1010'', ''1100'', ''0011'', ''1100''] \<subseteq> set GREYCODE_keys"
    by (simp add: GREYCODE_keys_def GREYCODE_def)
  have d: "decode [''0010'', ''1010'', ''1100'', ''0011'', ''1100''] = Inr [''2'', ''+'', ''3'']"
    by (simp add: decode_def GREYCODE_lookup_def GREYCODE_def isdigit_def)
  from decode_empty_or_well_formed [OF h] d show ?thesis
    using h by auto
qed

section \<open>Python floats\<close>

text \<open>
  A Python float is an IEEE double: a finite number, an infinity or a NaN. The value is
  modelled by what it denotes; the two zeros, which compare equal and which the program
  never tells apart, are one value. Comparison with zero, \<^verbatim>\<open>abs\<close> and \<^verbatim>\<open>>=\<close> are
  exact on doubles and are defined here. The four arithmetic operations round and
  overflow; they are parameters of the model, as are the reading of a string by
  \<^verbatim>\<open>float\<close> wherever it is not a short string of digits, and the conversion of an
  integer beyond \<open>2 ^ 53\<close> in magnitude. A theorem about every \<open>arith\<close> therefore
  holds of whatever the machine's arithmetic computes.
\<close>

datatype pyfloat = Fin real | PosInf | NegInf | FNaN

record arith =
  float_of_other :: "string \<Rightarrow> pyfloat option"
  float_of_big :: "int \<Rightarrow> pyfloat option"
  fadd :: "pyfloat \<Rightarrow> pyfloat \<Rightarrow> pyfloat"
  fsub :: "pyfloat \<Rightarrow> pyfloat \<Rightarrow> pyfloat"
  fmul :: "pyfloat \<Rightarrow> pyfloat \<Rightarrow> pyfloat"
  fdiv :: "pyfloat \<Rightarrow> pyfloat \<Rightarrow> pyfloat"

text \<open>\<^verbatim>\<open>x == 0\<close>, \<^verbatim>\<open>abs(x)\<close> and \<^verbatim>\<open>x >= 0\<close> on floats.\<close>

fun is_zero :: "pyfloat \<Rightarrow> bool" where
  "is_zero (Fin r) = (r = 0)"
| "is_zero _ = False"

fun fabs :: "pyfloat \<Rightarrow> pyfloat" where
  "fabs (Fin r) = Fin \<bar>r\<bar>"
| "fabs PosInf = PosInf"
| "fabs NegInf = PosInf"
| "fabs FNaN = FNaN"

fun nonneg :: "pyfloat \<Rightarrow> bool" where
  "nonneg (Fin r) = (0 \<le> r)"
| "nonneg PosInf = True"
| "nonneg NegInf = False"
| "nonneg FNaN = False"

text \<open>\<^verbatim>\<open>a / b\<close> on floats raises ZeroDivisionError when \<^verbatim>\<open>b\<close> is zero.\<close>

definition py_truediv :: "arith \<Rightarrow> pyfloat \<Rightarrow> pyfloat \<Rightarrow> error + pyfloat" where
  "py_truediv A a b = (if is_zero b then Inl ZeroDivisionError else Inr (fdiv A a b))"

text \<open>
  Integers up to \<open>2 ^ 53\<close> in magnitude are doubles, and a sum, difference or product
  of two of them that is again such an integer is computed without rounding. This
  property of IEEE arithmetic is a hypothesis where a theorem names a number.
\<close>

definition exact_on_integers :: "arith \<Rightarrow> bool" where
  "exact_on_integers A \<longleftrightarrow>
     (\<forall>m n :: int. \<bar>m\<bar> \<le> 2 ^ 53 \<and> \<bar>n\<bar> \<le> 2 ^ 53 \<longrightarrow>
        (\<bar>m + n\<bar> \<le> 2 ^ 53 \<longrightarrow>
           fadd A (Fin (of_int m)) (Fin (of_int n)) = Fin (of_int (m + n))) \<and>
        (\<bar>m - n\<bar> \<le> 2 ^ 53 \<longrightarrow>
           fsub A (Fin (of_int m)) (Fin (of_int n)) = Fin (of_int (m - n))) \<and>
        (\<bar>m * n\<bar> \<le> 2 ^ 53 \<longrightarrow>
           fmul A (Fin (of_int m)) (Fin (of_int n)) = Fin (of_int (m * n))))"

text \<open>
  An arithmetic that never rounds, on which the definitions below can be run: the
  operations are those of the reals on finite values and give a NaN otherwise; of the
  strings only short strings of digits are read, and integers are converted exactly
  below \<open>2 ^ 1024\<close> in magnitude.
\<close>

fun exact_op :: "(real \<Rightarrow> real \<Rightarrow> real) \<Rightarrow> pyfloat \<Rightarrow> pyfloat \<Rightarrow> pyfloat" where
  "exact_op f (Fin a) (Fin b) = Fin (f a b)"
| "exact_op f _ _ = FNaN"

definition exact_arith :: arith where
  "exact_arith =
     \<lparr>float_of_other = (\<lambda>s. None),
      float_of_big = (\<lambda>n. if \<bar>n\<bar> < 2 ^ 1024 then Some (Fin (of_int n)) else None),
      fadd = exact_op (+), fsub = exact_op (-), fmul = exact_op (*), fdiv = exact_op (/)\<rparr>"

text \<open>
  An arithmetic with a small range, on which overflow can be run: a result beyond 1000
  in magnitude is an infinity, and an operation on an infinity or a NaN gives a NaN (as
  IEEE arithmetic does for infinity times zero and for every operation on a NaN).
\<close>

fun small_op :: "(real \<Rightarrow> real \<Rightarrow> real) \<Rightarrow> pyfloat \<Rightarrow> pyfloat \<Rightarrow> pyfloat" where
  "small_op f (Fin a) (Fin b) =
     (if 1000 < f a b then PosInf else if f a b < - 1000 then NegInf else Fin (f a b))"
| "small_op f _ _ = FNaN"

definition small_arith :: arith where
  "small_arith =
     \<lparr>float_of_other = (\<lambda>s. None), float_of_big = (\<lambda>n. None),
      fadd = small_op (+), fsub = small_op (-), fmul = small_op (*), fdiv = small_op (/)\<rparr>"

section \<open>The evaluator\<close>

text \<open>
  The working list \<^verbatim>\<open>output\<close> of \<^verbatim>\<open>_evaluate\<close> starts as a copy of the decoded
  strings; each computed chunk is stored back as a float, so the list holds strings and
  floats.
\<close>

datatype item = Str string | Num pyfloat

text \<open>
  What the evaluator and the fitness function return: the object \<^verbatim>\<open>math.nan\<close> or a
  value. \<^verbatim>\<open>math.nan\<close> is told from every other value by identity (\<^verbatim>\<open>is\<close>); a NaN
  that arithmetic produces is another object, the value \<open>Num FNaN\<close>.
\<close>

datatype pyresult = NaN | Val item

text \<open>
  \<^verbatim>\<open>float(x)\<close>: a float is returned as it is. A string of at most 15 decimal digits is
  read as the integer it writes, which is a double; what \<^verbatim>\<open>float\<close> makes of any other
  string (a rounded number, a fraction, an infinity, ValueError) is \<open>float_of_other\<close>.
\<close>

definition digit_of_char :: "char \<Rightarrow> nat" where
  "digit_of_char c = of_char c - 48"

definition float_of_str :: "arith \<Rightarrow> string \<Rightarrow> error + pyfloat" where
  "float_of_str A s =
     (if isdigit s \<and> length s \<le> 15
      then Inr (Fin (real (foldl (\<lambda>a c. 10 * a + digit_of_char c) 0 s)))
      else (case float_of_other A s of None \<Rightarrow> Inl ValueError | Some x \<Rightarrow> Inr x))"

fun float_of :: "arith \<Rightarrow> item \<Rightarrow> error + pyfloat" where
  "float_of A (Str s) = float_of_str A s"
| "float_of A (Num x) = Inr x"

text \<open>
  Python list indexing: a negative index counts from the end, an index out of range
  raises IndexError. \<^verbatim>\<open>del xs[i]\<close> removes the element at that index.
\<close>

definition py_index :: "'a list \<Rightarrow> int \<Rightarrow> error + nat" where
  "py_index xs i =
     (let n = int (length xs); j = (if i < 0 then i + n else i)
      in if 0 \<le> j \<and> j < n then Inr (nat j) else Inl IndexError)"

definition py_get :: "'a list \<Rightarrow> int \<Rightarrow> error + 'a" where
  "py_get xs i = (case py_index xs i of Inl e \<Rightarrow> Inl e | Inr j \<Rightarrow> Inr (xs ! j))"

definition py_del :: "'a list \<Rightarrow> int \<Rightarrow> error + 'a list" where
  "py_del xs i =
     (case py_index xs i of Inl e \<Rightarrow> Inl e | Inr j \<Rightarrow> Inr (take j xs @ drop (Suc j) xs))"

text \<open>\<^verbatim>\<open>float(output[i])\<close>\<close>

definition operand :: "arith \<Rightarrow> item list \<Rightarrow> int \<Rightarrow> error + pyfloat" where
  "operand A output i =
     (case py_get output i of Inl e \<Rightarrow> Inl e | Inr x \<Rightarrow> float_of A x)"

text \<open>
  \<^verbatim>\<open>for i, x in enumerate(output)\<close> stops at the first element that sets \<^verbatim>\<open>total\<close>:
  the first index whose element satisfies the test.
\<close>

fun first_index :: "('a \<Rightarrow> bool) \<Rightarrow> 'a list \<Rightarrow> nat option" where
  "first_index P [] = None"
| "first_index P (x # xs) =
     (if P x then Some 0 else map_option Suc (first_index P xs))"

text \<open>
  Replacing the chunk: \<^verbatim>\<open>output[i] = total; del output[i-1]; del output[i]\<close>.
\<close>

definition collapse :: "item list \<Rightarrow> nat \<Rightarrow> pyfloat \<Rightarrow> error + item list" where
  "collapse output i tot =
     (case py_del (output[i := Num tot]) (int i - 1) of
        Inl e \<Rightarrow> Inl e
      | Inr output' \<Rightarrow> py_del output' (int i))"

text \<open>A loop body either returns from the function or goes on with the new list.\<close>

datatype 'a step = Return pyresult | Continue 'a

definition is_mul :: "item \<Rightarrow> bool" where
  "is_mul x \<longleftrightarrow> x = Str ''*'' \<or> x = Str ''/''"

definition is_add :: "item \<Rightarrow> bool" where
  "is_add x \<longleftrightarrow> x = Str ''+'' \<or> x = Str ''-''"

text \<open>
  The body of the first \<^verbatim>\<open>for\<close> loop at the index \<open>i\<close> the scan stops at, where the
  element is \<^verbatim>\<open>"*"\<close> or \<^verbatim>\<open>"/"\<close>. The operands are converted left to right; for a
  division the right operand is converted and compared with zero first.
\<close>

definition mul_chunk :: "arith \<Rightarrow> item list \<Rightarrow> nat \<Rightarrow> error + item list step" where
  "mul_chunk A output i =
     (if output ! i = Str ''*'' then
        (case operand A output (int i - 1) of Inl e \<Rightarrow> Inl e | Inr a \<Rightarrow>
         case operand A output (int i + 1) of Inl e \<Rightarrow> Inl e | Inr b \<Rightarrow>
         case collapse output i (fmul A a b) of Inl e \<Rightarrow> Inl e | Inr output' \<Rightarrow>
           Inr (Continue output'))
      else
        (case operand A output (int i + 1) of Inl e \<Rightarrow> Inl e | Inr z \<Rightarrow>
         if is_zero z then Inr (Return NaN) else
         case operand A output (int i - 1) of Inl e \<Rightarrow> Inl e | Inr a \<Rightarrow>
         case operand A output (int i + 1) of Inl e \<Rightarrow> Inl e | Inr b \<Rightarrow>
         case py_truediv A a b of Inl e \<Rightarrow> Inl e | Inr q \<Rightarrow>
         case collapse output i q of Inl e \<Rightarrow> Inl e | Inr output' \<Rightarrow>
           Inr (Continue output')))"

text \<open>The body of the second \<^verbatim>\<open>for\<close> loop, at an element \<^verbatim>\<open>"+"\<close> or \<^verbatim>\<open>"-"\<close>.\<close>

definition add_chunk :: "arith \<Rightarrow> item list \<Rightarrow> nat \<Rightarrow> error + item list" where
  "add_chunk A output i =
     (case operand A output (int i - 1) of Inl e \<Rightarrow> Inl e | Inr a \<Rightarrow>
      case operand A output (int i + 1) of Inl e \<Rightarrow> Inl e | Inr b \<Rightarrow>
      collapse output i (if output ! i = Str ''+'' then fadd A a b else fsub A a b))"

subsection \<open>Each chunk shortens the list, so both loops terminate\<close>

lemma py_del_length: "py_del xs i = Inr ys \<Longrightarrow> Suc (length ys) = length xs"
  by (auto simp: py_del_def py_index_def Let_def split: sum.splits if_splits)

lemma collapse_length: "collapse xs i t = Inr ys \<Longrightarrow> length ys < length xs"
  by (auto simp: collapse_def split: sum.splits dest!: py_del_length)

lemma mul_chunk_length: "mul_chunk A xs i = Inr (Continue ys) \<Longrightarrow> length ys < length xs"
  by (auto simp: mul_chunk_def split: sum.splits if_splits dest: collapse_length)

lemma add_chunk_length: "add_chunk A xs i = Inr ys \<Longrightarrow> length ys < length xs"
  by (auto simp: add_chunk_def split: sum.splits if_splits dest: collapse_length)

text \<open>
  \<^verbatim>\<open>while "*" in output or "/" in output\<close>: the condition holds exactly when the scan of
  the \<^verbatim>\<open>for\<close> loop finds an element (both test equality with the same two strings), so
  the loop ends when the scan finds none.
\<close>

function mul_pass :: "arith \<Rightarrow> item list \<Rightarrow> error + item list step" where
  "mul_pass A output =
     (case first_index is_mul output of
        None \<Rightarrow> Inr (Continue output)
      | Some i \<Rightarrow>
          (case mul_chunk A output i of
             Inl e \<Rightarrow> Inl e
           | Inr (Return r) \<Rightarrow> Inr (Return r)
           | Inr (Continue output') \<Rightarrow> mul_pass A output'))"
  by pat_completeness auto
termination
  by (relation "measure (\<lambda>(A, xs). length xs)") (auto dest: mul_chunk_length)

function add_pass :: "arith \<Rightarrow> item list \<Rightarrow> error + item list" where
  "add_pass A output =
     (case first_index is_add output of
        None \<Rightarrow> Inr output
      | Some i \<Rightarrow>
          (case add_chunk A output i of
             Inl e \<Rightarrow> Inl e
           | Inr output' \<Rightarrow> add_pass A output'))"
  by pat_completeness auto
termination
  by (relation "measure (\<lambda>(A, xs). length xs)") (auto dest: add_chunk_length)

text \<open>
  \<^verbatim>\<open>_evaluate\<close>. After the two loops: \<^verbatim>\<open>float(output[0])\<close> when one element is left,
  else \<^verbatim>\<open>output[0]\<close> as it is (IndexError on the empty list).
\<close>

definition evaluate :: "arith \<Rightarrow> string list \<Rightarrow> error + pyresult" where
  "evaluate A decoded =
     (case mul_pass A (map Str decoded) of
        Inl e \<Rightarrow> Inl e
      | Inr (Return r) \<Rightarrow> Inr r
      | Inr (Continue output) \<Rightarrow>
          (case add_pass A output of
             Inl e \<Rightarrow> Inl e
           | Inr output' \<Rightarrow>
               if length output' = 1
               then (case float_of A (output' ! 0) of
                       Inl e \<Rightarrow> Inl e
                     | Inr v \<Rightarrow> Inr (Val (Num v)))
               else (case py_get output' 0 of Inl e \<Rightarrow> Inl e | Inr x \<Rightarrow> Inr (Val x))))"

text \<open>
  The target is a Python number, an \<^verbatim>\<open>int\<close> or a \<^verbatim>\<open>float\<close>. In
  \<^verbatim>\<open>target - result\<close> with a float \<^verbatim>\<open>result\<close> an \<^verbatim>\<open>int\<close> target is converted to
  a float first: exactly up to \<open>2 ^ 53\<close> in magnitude, rounded beyond that, and with
  OverflowError when it is too large for a float.
\<close>

datatype pynum = PyInt int | PyFloat pyfloat

fun to_float :: "arith \<Rightarrow> pynum \<Rightarrow> error + pyfloat" where
  "to_float A (PyFloat x) = Inr x"
| "to_float A (PyInt n) =
     (if \<bar>n\<bar> \<le> 2 ^ 53 then Inr (Fin (of_int n))
      else (case float_of_big A n of None \<Rightarrow> Inl OverflowError | Some x \<Rightarrow> Inr x))"

text \<open>
  \<^verbatim>\<open>fitness\<close>. Its first test, \<^verbatim>\<open>math.nan in decoded\<close>, is false for every list of
  strings. The second, \<^verbatim>\<open>result is math.nan\<close>, holds of the marker only, not of a NaN
  that arithmetic produced. \<^verbatim>\<open>target - result\<close> raises TypeError when the result is a
  string.
\<close>

definition fitness :: "arith \<Rightarrow> string list \<Rightarrow> pynum \<Rightarrow> error + pyresult" where
  "fitness A decoded target =
     (case evaluate A decoded of
        Inl e \<Rightarrow> Inl e
      | Inr NaN \<Rightarrow> Inr NaN
      | Inr (Val (Str s)) \<Rightarrow> Inl TypeError
      | Inr (Val (Num result)) \<Rightarrow>
          (case to_float A target of
             Inl e \<Rightarrow> Inl e
           | Inr t \<Rightarrow> Inr (Val (Num (fabs (fsub A t result))))))"

subsection \<open>The loop conditions and the scans agree\<close>

lemma first_index_None_iff: "first_index P xs = None \<longleftrightarrow> (\<forall>x \<in> set xs. \<not> P x)"
  by (induction xs) auto

lemma mul_condition_iff_scan:
  "(Str ''*'' \<in> set xs \<or> Str ''/'' \<in> set xs) \<longleftrightarrow> first_index is_mul xs \<noteq> None"
  by (auto simp: first_index_None_iff is_mul_def)

lemma add_condition_iff_scan:
  "(Str ''+'' \<in> set xs \<or> Str ''-'' \<in> set xs) \<longleftrightarrow> first_index is_add xs \<noteq> None"
  by (auto simp: first_index_None_iff is_add_def)

section \<open>The evaluation the specification describes\<close>

text \<open>
  The specification's words: all multiplicative operators are resolved first, left to
  right, then the additive ones, left to right. Written here directly over the digits'
  values, independently of the list surgery of the code: \<open>mul_tier\<close> folds each run of
  \<^verbatim>\<open>*\<close> and \<^verbatim>\<open>/\<close> into one term (no result on a division by zero) and leaves the
  terms with the additive operators between them; \<open>add_tier\<close> folds these. The
  accumulator is always the left operand: since the operations of an \<open>arith\<close> need not
  be associative, no other grouping gives the same function.
\<close>

definition digit_value :: "string \<Rightarrow> real" where
  "digit_value d = real (length (takeWhile (\<lambda>s. s \<noteq> d) digit_symbols))"

fun pairs :: "string list \<Rightarrow> (string \<times> pyfloat) list" where
  "pairs (op # d # rest) = (op, Fin (digit_value d)) # pairs rest"
| "pairs _ = []"

fun mul_tier ::
  "arith \<Rightarrow> pyfloat \<Rightarrow> (string \<times> pyfloat) list \<Rightarrow> (pyfloat \<times> (string \<times> pyfloat) list) option" where
  "mul_tier A acc [] = Some (acc, [])"
| "mul_tier A acc ((op, v) # rest) =
     (if op = ''*'' then mul_tier A (fmul A acc v) rest
      else if op = ''/'' then (if is_zero v then None else mul_tier A (fdiv A acc v) rest)
      else (case mul_tier A v rest of
              None \<Rightarrow> None
            | Some (t, ts) \<Rightarrow> Some (acc, (op, t) # ts)))"

fun add_tier :: "arith \<Rightarrow> pyfloat \<Rightarrow> (string \<times> pyfloat) list \<Rightarrow> pyfloat" where
  "add_tier A acc [] = acc"
| "add_tier A acc ((op, t) # ts) =
     add_tier A (if op = ''+'' then fadd A acc t else fsub A acc t) ts"

definition spec_evaluate :: "arith \<Rightarrow> string list \<Rightarrow> pyresult option" where
  "spec_evaluate A tokens =
     (case tokens of
        [] \<Rightarrow> None
      | d # rest \<Rightarrow>
          (case mul_tier A (Fin (digit_value d)) (pairs rest) of
             None \<Rightarrow> Some NaN
           | Some (t, ts) \<Rightarrow> Some (Val (Num (add_tier A t ts)))))"

section \<open>The evaluator on well-formed token sequences\<close>

lemma digit_token_cases:
  assumes "is_digit_token d"
  obtains "d = ''0''" | "d = ''1''" | "d = ''2''" | "d = ''3''" | "d = ''4''"
    | "d = ''5''" | "d = ''6''" | "d = ''7''" | "d = ''8''" | "d = ''9''"
  using assms unfolding is_digit_token_def digit_symbols_def by auto

lemma float_of_digit:
  assumes "is_digit_token d"
  shows "float_of_str A d = Inr (Fin (digit_value d))"
  using assms
  by (cases rule: digit_token_cases)
     (simp_all add: float_of_str_def isdigit_def digit_of_char_def digit_value_def
       digit_symbols_def)

text \<open>
  The shape of the working list while the loops run: operands (digit strings or floats)
  alternating with operator strings.
\<close>

fun item_value :: "item \<Rightarrow> pyfloat" where
  "item_value (Str s) = Fin (digit_value s)"
| "item_value (Num r) = r"

fun operand_ok :: "item \<Rightarrow> bool" where
  "operand_ok (Str s) = is_digit_token s"
| "operand_ok (Num r) = True"

fun alternating :: "(string \<Rightarrow> bool) \<Rightarrow> item list \<Rightarrow> bool" where
  "alternating ok [a] = operand_ok a"
| "alternating ok (a # Str op # rest) = (operand_ok a \<and> ok op \<and> alternating ok rest)"
| "alternating ok _ = False"

fun item_pairs :: "item list \<Rightarrow> (string \<times> pyfloat) list" where
  "item_pairs (Str op # x # rest) = (op, item_value x) # item_pairs rest"
| "item_pairs _ = []"

definition is_additive :: "string \<Rightarrow> bool" where
  "is_additive op \<longleftrightarrow> op = ''+'' \<or> op = ''-''"

lemma float_of_operand: "operand_ok a \<Longrightarrow> float_of A a = Inr (item_value a)"
  by (cases a) (simp_all add: float_of_digit)

lemma operand_not_mul: "operand_ok a \<Longrightarrow> \<not> is_mul a"
  by (cases a) (auto simp: is_mul_def is_digit_token_def digit_symbols_def)

lemma operand_not_add: "operand_ok a \<Longrightarrow> \<not> is_add a"
  by (cases a) (auto simp: is_add_def is_digit_token_def digit_symbols_def)

lemma py_index_nat: "py_index xs (int k) = (if k < length xs then Inr k else Inl IndexError)"
  by (simp add: py_index_def)

lemma py_get_nat: "py_get xs (int k) = (if k < length xs then Inr (xs ! k) else Inl IndexError)"
  by (simp add: py_get_def py_index_nat)

lemma py_del_nat:
  "py_del xs (int k) = (if k < length xs then Inr (take k xs @ drop (Suc k) xs) else Inl IndexError)"
  by (simp add: py_del_def py_index_nat)

lemma operand_nat:
  "operand A xs (int k) = (if k < length xs then float_of A (xs ! k) else Inl IndexError)"
  by (simp add: operand_def py_get_nat)

lemma int_Suc_pred: "int (Suc j) - 1 = int j"
  by simp

lemma int_Suc_succ: "int (Suc j) + 1 = int (Suc (Suc j))"
  by simp

lemma del_after_update:
  assumes "Suc j < length out"
  shows "take j (out[Suc j := x]) @ drop (Suc j) (out[Suc j := x]) =
         take j out @ x # drop (Suc (Suc j)) out"
proof -
  have "out[Suc j := x] = take (Suc j) out @ x # drop (Suc (Suc j)) out"
    using assms by (rule upd_conv_take_nth_drop)
  moreover have "take j (take (Suc j) out @ x # drop (Suc (Suc j)) out) = take j out"
    using assms by (simp add: min_def)
  moreover have "drop (Suc j) (take (Suc j) out @ x # drop (Suc (Suc j)) out) =
                 x # drop (Suc (Suc j)) out"
    using assms by (simp add: min_def)
  ultimately show ?thesis by simp
qed

lemma del_second:
  assumes "Suc (Suc j) < length out"
  shows "take (Suc j) (take j out @ x # drop (Suc (Suc j)) out) @
         drop (Suc (Suc j)) (take j out @ x # drop (Suc (Suc j)) out) =
         take j out @ x # drop (Suc (Suc (Suc j))) out"
proof -
  have l: "length (take j out) = j" using assms by simp
  have "take (Suc j) (take j out @ x # drop (Suc (Suc j)) out) = take j out @ [x]"
    using l by simp
  moreover have "drop (Suc (Suc j)) (take j out @ x # drop (Suc (Suc j)) out) =
                 drop (Suc 0) (drop (Suc (Suc j)) out)"
    using l by simp
  moreover have "drop (Suc 0) (drop (Suc (Suc j)) out) = drop (Suc (Suc (Suc j))) out"
    by simp
  ultimately show ?thesis by simp
qed

lemma collapse_Suc:
  "collapse out (Suc j) t =
     (if Suc (Suc j) < length out then Inr (take j out @ Num t # drop (Suc (Suc (Suc j))) out)
      else Inl IndexError)"
proof (cases "Suc (Suc j) < length out")
  case True
  then have sj: "Suc j < length out" and j: "j < length out" by simp_all
  have d1: "py_del (out[Suc j := Num t]) (int j) =
            Inr (take j out @ Num t # drop (Suc (Suc j)) out)"
    using j del_after_update [OF sj] by (simp add: py_del_nat)
  have d2: "py_del (take j out @ Num t # drop (Suc (Suc j)) out) (int (Suc j)) =
            Inr (take j out @ Num t # drop (Suc (Suc (Suc j))) out)"
    using True del_second [OF True] by (simp add: py_del_nat del: of_nat_Suc)
  show ?thesis
    unfolding collapse_def int_Suc_pred d1 using True d2 by simp
next
  case False
  show ?thesis
  proof (cases "j < length out")
    case True
    have "py_del (out[Suc j := Num t]) (int j) =
          Inr (take j (out[Suc j := Num t]) @ drop (Suc j) (out[Suc j := Num t]))"
      using True by (simp add: py_del_nat)
    moreover have "\<not> Suc j <
        length (take j (out[Suc j := Num t]) @ drop (Suc j) (out[Suc j := Num t]))"
      using False True by simp
    ultimately show ?thesis
      unfolding collapse_def int_Suc_pred using False
      by (simp add: py_del_nat del: of_nat_Suc)
  next
    case nj: False
    then have "py_del (out[Suc j := Num t]) (int j) = Inl IndexError"
      by (simp add: py_del_nat)
    then show ?thesis
      unfolding collapse_def int_Suc_pred using False by simp
  qed
qed

lemma collapse_lift:
  "collapse (a # s # ys) (Suc (Suc (Suc j))) t =
   map_sum id (\<lambda>l. a # s # l) (collapse ys (Suc j) t)"
  by (simp add: collapse_Suc)

lemma operand_lift: "operand A (a # s # ys) (int (Suc (Suc k))) = operand A ys (int k)"
  by (simp add: operand_nat del: of_nat_Suc)

lemma bind_lift:
  "(case x of Inl e \<Rightarrow> Inl e | Inr v \<Rightarrow> map_sum id g (f v)) =
   map_sum id g (case x of Inl e \<Rightarrow> Inl e | Inr v \<Rightarrow> f v)"
  by (cases x) simp_all

lemma mul_chunk_lift:
  "mul_chunk A (a # s # ys) (Suc (Suc (Suc j))) =
   map_sum id (map_step (\<lambda>l. a # s # l)) (mul_chunk A ys (Suc j))"
proof -
  have c: "\<And>t. (case collapse (a # s # ys) (Suc (Suc (Suc j))) t of
                  Inl e \<Rightarrow> Inl e | Inr output' \<Rightarrow> Inr (Continue output')) =
           map_sum id (map_step (\<lambda>l. a # s # l))
             (case collapse ys (Suc j) t of Inl e \<Rightarrow> Inl e | Inr output' \<Rightarrow> Inr (Continue output'))"
    by (simp add: collapse_lift split: sum.split)
  have i1: "int (Suc (Suc (Suc j))) - 1 = int (Suc (Suc j))" by simp
  have i2: "int (Suc (Suc (Suc j))) + 1 = int (Suc (Suc (Suc (Suc j))))" by simp
  show ?thesis
    unfolding mul_chunk_def i1 i2 int_Suc_pred int_Suc_succ operand_lift c
    by (simp add: bind_lift split: sum.split)
qed

declare mul_pass.simps [simp del] add_pass.simps [simp del]

lemma alternating_Cons:
  "alternating ok (a # xs) \<longleftrightarrow>
     operand_ok a \<and> (xs = [] \<or> (\<exists>op rest. xs = Str op # rest \<and> ok op \<and> alternating ok rest))"
  by (cases "(ok, a # xs)" rule: alternating.cases) auto

lemma alternating_nonempty: "alternating ok xs \<Longrightarrow> \<exists>b rest. xs = b # rest \<and> operand_ok b"
  by (cases xs) (auto simp: alternating_Cons)

lemma alternating_head:
  "alternating ok (b # rest) \<Longrightarrow> operand_ok c \<Longrightarrow> alternating ok (c # rest)"
  by (auto simp: alternating_Cons)

lemma first_index_skip2:
  "\<not> P a \<Longrightarrow> \<not> P s \<Longrightarrow>
   first_index P (a # s # ys) = map_option (\<lambda>i. Suc (Suc i)) (first_index P ys)"
  by (simp add: option.map_comp comp_def)

lemma first_index_mul_pos:
  "alternating ok ys \<Longrightarrow> first_index is_mul ys = Some i \<Longrightarrow> \<exists>j. i = Suc j"
  by (cases ys) (auto simp: alternating_Cons operand_not_mul)

lemma operand_0: "operand A (x # xs) 0 = float_of A x"
  by (simp add: operand_def py_get_def py_index_def)

lemma map_step_Continue: "map_step f x = Continue y \<longleftrightarrow> (\<exists>z. x = Continue z \<and> y = f z)"
  by (cases x) auto

lemma Continue_map_step: "Continue y = map_step f x \<longleftrightarrow> (\<exists>z. x = Continue z \<and> y = f z)"
  by (cases x) auto

lemma map_step_Return: "map_step f x = Return r \<longleftrightarrow> x = Return r"
  by (cases x) auto

lemma map_sum_Inr: "map_sum id g x = Inr y \<longleftrightarrow> (\<exists>z. x = Inr z \<and> y = g z)"
  by (cases x) auto

lemma mul_chunk_head:
  assumes "operand_ok a" "operand_ok b"
  shows "mul_chunk A (a # Str op # b # rest) (Suc 0) =
     (if op = ''*'' then Inr (Continue (Num (fmul A (item_value a) (item_value b)) # rest))
      else if is_zero (item_value b) then Inr (Return NaN)
      else Inr (Continue (Num (fdiv A (item_value a) (item_value b)) # rest)))"
proof -
  have i1: "int (Suc 0) - 1 = 0" and i2: "int (Suc 0) + 1 = int (Suc (Suc 0))"
    by simp_all
  have a: "operand A (a # Str op # b # rest) 0 = Inr (item_value a)"
    using assms(1) by (simp add: operand_0 float_of_operand)
  have b: "operand A (a # Str op # b # rest) (int (Suc (Suc 0))) = Inr (item_value b)"
    using assms(2) by (simp add: operand_nat float_of_operand del: of_nat_Suc)
  have c: "\<And>t. collapse (a # Str op # b # rest) (Suc 0) t = Inr (Num t # rest)"
    by (simp add: collapse_Suc)
  show ?thesis
    unfolding mul_chunk_def i1 i2 a b c by (simp add: py_truediv_def)
qed

lemma mul_chunk_preserves:
  assumes "alternating ok ys" "first_index is_mul ys = Some i"
    "mul_chunk A ys i = Inr (Continue ys')"
  shows "alternating ok ys'"
  using assms
proof (induction ok ys arbitrary: i ys' rule: alternating.induct)
  case (1 ok a)
  then show ?case by (simp add: operand_not_mul)
next
  case (2 ok a op rest)
  from "2.prems"(1) have a: "operand_ok a" and op: "ok op" and rest: "alternating ok rest"
    by simp_all
  from alternating_nonempty [OF rest] obtain b rest' where
    r: "rest = b # rest'" and b: "operand_ok b" by blast
  show ?case
  proof (cases "is_mul (Str op)")
    case True
    with a "2.prems"(2) have i: "i = Suc 0" by (simp add: operand_not_mul)
    from "2.prems"(3) have "\<exists>v. ys' = Num v # rest'"
      unfolding i r mul_chunk_head [OF a b] by (auto split: if_splits)
    then show ?thesis using rest r by (auto intro: alternating_head)
  next
    case False
    with a "2.prems"(2) obtain i' where
      i: "i = Suc (Suc i')" and fi: "first_index is_mul rest = Some i'"
      by (auto simp: operand_not_mul)
    from first_index_mul_pos [OF rest fi] obtain j where j: "i' = Suc j" by blast
    from "2.prems"(3) obtain zs where
      zs: "mul_chunk A rest (Suc j) = Inr (Continue zs)" and ys': "ys' = a # Str op # zs"
      unfolding i j mul_chunk_lift
      by (auto simp: map_sum_Inr map_step_Continue Continue_map_step)
    from "2.IH" [OF rest] fi zs j have "alternating ok zs" by simp
    with a op ys' show ?thesis by simp
  qed
qed simp_all

lemma mul_pass_prefix:
  assumes "alternating ok ys" "\<not> is_mul a" "\<not> is_mul s"
  shows "mul_pass A (a # s # ys) = map_sum id (map_step (\<lambda>l. a # s # l)) (mul_pass A ys)"
  using assms(1)
proof (induction A ys rule: mul_pass.induct)
  case (1 A ys)
  have fi: "first_index is_mul (a # s # ys) =
            map_option (\<lambda>i. Suc (Suc i)) (first_index is_mul ys)"
    using assms(2,3) by (rule first_index_skip2)
  show ?case
  proof (cases "first_index is_mul ys")
    case None
    with fi show ?thesis
      by (simp add: mul_pass.simps [of A ys] mul_pass.simps [of A "a # s # ys"])
  next
    case (Some i)
    from first_index_mul_pos [OF "1.prems" Some] obtain j where j: "i = Suc j" by blast
    have fi': "first_index is_mul (a # s # ys) = Some (Suc (Suc (Suc j)))"
      using fi Some j by simp
    show ?thesis
    proof (cases "mul_chunk A ys (Suc j)")
      case (Inl e)
      then show ?thesis
        using Some j fi'
        by (simp add: mul_pass.simps [of A ys] mul_pass.simps [of A "a # s # ys"] mul_chunk_lift)
    next
      case (Inr st)
      show ?thesis
      proof (cases st)
        case (Return r)
        with Inr show ?thesis
          using Some j fi'
          by (simp add: mul_pass.simps [of A ys] mul_pass.simps [of A "a # s # ys"] mul_chunk_lift)
      next
        case (Continue ys')
        with Inr Some j have ch: "mul_chunk A ys i = Inr (Continue ys')" by simp
        from mul_chunk_preserves [OF "1.prems" Some ch] have alt: "alternating ok ys'" .
        from "1.IH" [OF Some ch refl alt]
        have "mul_pass A (a # s # ys') =
              map_sum id (map_step (\<lambda>l. a # s # l)) (mul_pass A ys')" .
        then show ?thesis
          using Some j fi' Inr Continue
          by (simp add: mul_pass.simps [of A ys] mul_pass.simps [of A "a # s # ys"] mul_chunk_lift
              id_def)
      qed
    qed
  qed
qed

lemma is_mul_Str: "is_mul (Str op) \<longleftrightarrow> op = ''*'' \<or> op = ''/''"
  by (simp add: is_mul_def)

lemma operator_cases:
  "is_operator_token op \<Longrightarrow> op = ''*'' \<or> op = ''/'' \<or> is_additive op"
  by (auto simp: is_operator_token_def operator_symbols_def is_additive_def)

lemma is_additive_not_mul: "is_additive op \<Longrightarrow> op \<noteq> ''*'' \<and> op \<noteq> ''/''"
  by (auto simp: is_additive_def)

lemma mul_pass_head:
  assumes "operand_ok a" "operand_ok b" "op = ''*'' \<or> op = ''/''"
  shows "mul_pass A (a # Str op # b # rest) =
     (if op = ''*'' then mul_pass A (Num (fmul A (item_value a) (item_value b)) # rest)
      else if is_zero (item_value b) then Inr (Return NaN)
      else mul_pass A (Num (fdiv A (item_value a) (item_value b)) # rest))"
proof -
  have "first_index is_mul (a # Str op # b # rest) = Some (Suc 0)"
    using assms(1,3) by (simp add: operand_not_mul is_mul_Str)
  then show ?thesis
    by (simp add: mul_pass.simps [of A "a # Str op # b # rest"] mul_chunk_head [OF assms(1,2)])
qed

lemma mul_pass_single: "operand_ok a \<Longrightarrow> mul_pass A [a] = Inr (Continue [a])"
  by (simp add: mul_pass.simps [of A "[a]"] operand_not_mul)

lemma mul_pass_tier:
  assumes "alternating is_operator_token (a # xs)"
  shows "(mul_tier A (item_value a) (item_pairs xs) = None \<longrightarrow>
            mul_pass A (a # xs) = Inr (Return NaN)) \<and>
         (\<forall>t ts. mul_tier A (item_value a) (item_pairs xs) = Some (t, ts) \<longrightarrow>
             (\<exists>y ys. mul_pass A (a # xs) = Inr (Continue (y # ys)) \<and>
                alternating is_additive (y # ys) \<and> item_value y = t \<and> item_pairs ys = ts))"
  using assms
proof (induction "length xs" arbitrary: a xs rule: less_induct)
  case less
  from less.prems have a: "operand_ok a" by (simp add: alternating_Cons)
  show ?case
  proof (cases xs)
    case Nil
    with a show ?thesis by (simp add: mul_pass_single)
  next
    case (Cons x xs')
    with less.prems obtain op rest where
      x: "x = Str op" and xs': "xs' = rest" and op: "is_operator_token op"
      and rest: "alternating is_operator_token rest"
      by (auto simp: alternating_Cons)
    from alternating_nonempty [OF rest] obtain b rest' where
      r: "rest = b # rest'" and b: "operand_ok b" by blast
    have xs: "xs = Str op # b # rest'" using Cons x xs' r by simp
    have len: "length rest' < length xs" using xs by simp
    from operator_cases [OF op] consider "op = ''*''" | "op = ''/''" | "is_additive op"
      by blast
    then show ?thesis
    proof cases
      case 1
      have alt: "alternating is_operator_token (Num (fmul A (item_value a) (item_value b)) # rest')"
        using rest r by (auto intro: alternating_head)
      have "mul_pass A (a # Str op # b # rest') =
            mul_pass A (Num (fmul A (item_value a) (item_value b)) # rest')"
        using mul_pass_head [OF a b, where op = op and rest = rest' and A = A] 1 by simp
      with less.hyps [OF len alt] show ?thesis
        unfolding xs using 1 by simp
    next
      case 2
      have alt: "alternating is_operator_token (Num (fdiv A (item_value a) (item_value b)) # rest')"
        using rest r by (auto intro: alternating_head)
      have "mul_pass A (a # Str op # b # rest') =
            (if is_zero (item_value b) then Inr (Return NaN)
             else mul_pass A (Num (fdiv A (item_value a) (item_value b)) # rest'))"
        using mul_pass_head [OF a b, where op = op and rest = rest' and A = A] 2 by simp
      with less.hyps [OF len alt] show ?thesis
        unfolding xs using 2 by simp
    next
      case 3
      then have nm: "\<not> is_mul (Str op)" and ne: "op \<noteq> ''*''" "op \<noteq> ''/''"
        by (auto simp: is_mul_Str dest: is_additive_not_mul)
      have alt: "alternating is_operator_token (b # rest')" using rest r by simp
      have pre: "mul_pass A (a # Str op # b # rest') =
                 map_sum id (map_step (\<lambda>l. a # Str op # l)) (mul_pass A (b # rest'))"
        using alt a nm by (intro mul_pass_prefix) (auto simp: operand_not_mul)
      note IH = less.hyps [OF len alt]
      show ?thesis
      proof (cases "mul_tier A (item_value b) (item_pairs rest')")
        case None
        with IH have "mul_pass A (b # rest') = Inr (Return NaN)" by simp
        with None show ?thesis
          unfolding xs pre using ne by simp
      next
        case (Some p)
        obtain t ts where p: "p = (t, ts)" by (cases p)
        from IH Some p obtain y ys where
          mp: "mul_pass A (b # rest') = Inr (Continue (y # ys))" and
          alt': "alternating is_additive (y # ys)" and
          y: "item_value y = t" and ys: "item_pairs ys = ts"
          by auto
        have "alternating is_additive (a # Str op # y # ys)"
          using a 3 alt' by simp
        with Some p mp y ys show ?thesis
          unfolding xs pre using ne by simp
      qed
    qed
  qed
qed

lemma is_add_Str: "is_add (Str op) \<longleftrightarrow> is_additive op"
  by (simp add: is_add_def is_additive_def)

lemma add_chunk_head:
  assumes "operand_ok a" "operand_ok b"
  shows "add_chunk A (a # Str op # b # rest) (Suc 0) =
     Inr (Num (if op = ''+'' then fadd A (item_value a) (item_value b)
               else fsub A (item_value a) (item_value b)) # rest)"
proof -
  have i1: "int (Suc 0) - 1 = 0" and i2: "int (Suc 0) + 1 = int (Suc (Suc 0))"
    by simp_all
  have a: "operand A (a # Str op # b # rest) 0 = Inr (item_value a)"
    using assms(1) by (simp add: operand_0 float_of_operand)
  have b: "operand A (a # Str op # b # rest) (int (Suc (Suc 0))) = Inr (item_value b)"
    using assms(2) by (simp add: operand_nat float_of_operand del: of_nat_Suc)
  have c: "\<And>t. collapse (a # Str op # b # rest) (Suc 0) t = Inr (Num t # rest)"
    by (simp add: collapse_Suc)
  show ?thesis
    unfolding add_chunk_def i1 i2 a b c by simp
qed

lemma add_pass_single: "operand_ok a \<Longrightarrow> add_pass A [a] = Inr [a]"
  by (simp add: add_pass.simps [of A "[a]"] operand_not_add)

lemma add_pass_head:
  assumes "operand_ok a" "operand_ok b" "is_additive op"
  shows "add_pass A (a # Str op # b # rest) =
     add_pass A (Num (if op = ''+'' then fadd A (item_value a) (item_value b)
                    else fsub A (item_value a) (item_value b)) # rest)"
proof -
  have "first_index is_add (a # Str op # b # rest) = Some (Suc 0)"
    using assms(1,3) by (simp add: operand_not_add is_add_Str)
  then show ?thesis
    by (simp add: add_pass.simps [of A "a # Str op # b # rest"] add_chunk_head [OF assms(1,2)])
qed

lemma add_pass_tier:
  assumes "alternating is_additive (a # xs)"
  shows "\<exists>z. add_pass A (a # xs) = Inr [z] \<and> operand_ok z \<and>
             item_value z = add_tier A (item_value a) (item_pairs xs)"
  using assms
proof (induction "length xs" arbitrary: a xs rule: less_induct)
  case less
  from less.prems have a: "operand_ok a" by (simp add: alternating_Cons)
  show ?case
  proof (cases xs)
    case Nil
    with a show ?thesis by (simp add: add_pass_single)
  next
    case (Cons x xs')
    with less.prems obtain op rest where
      x: "x = Str op" and xs': "xs' = rest" and op: "is_additive op"
      and rest: "alternating is_additive rest"
      by (auto simp: alternating_Cons)
    from alternating_nonempty [OF rest] obtain b rest' where
      r: "rest = b # rest'" and b: "operand_ok b" by blast
    have xs: "xs = Str op # b # rest'" using Cons x xs' r by simp
    have len: "length rest' < length xs" using xs by simp
    let ?v = "if op = ''+'' then fadd A (item_value a) (item_value b) else fsub A (item_value a) (item_value b)"
    have alt: "alternating is_additive (Num ?v # rest')"
      using rest r by (auto intro: alternating_head)
    from less.hyps [OF len alt] show ?thesis
      unfolding xs add_pass_head [OF a b op] by simp
  qed
qed

lemma well_formed_alternating:
  "well_formed tokens \<Longrightarrow> alternating is_operator_token (map Str tokens)"
  by (induction tokens rule: well_formed.induct) simp_all

lemma item_pairs_map_Str: "item_pairs (map Str tokens) = pairs tokens"
  by (induction tokens rule: pairs.induct) simp_all

lemma evaluate_refines:
  assumes "well_formed tokens"
  shows "\<exists>r. spec_evaluate A tokens = Some r \<and> evaluate A tokens = Inr r \<and>
             (r = NaN \<or> (\<exists>v. r = Val (Num v)))"
proof -
  from assms obtain d rest where t: "tokens = d # rest" by (cases tokens) auto
  from well_formed_alternating [OF assms]
  have alt: "alternating is_operator_token (Str d # map Str rest)" by (simp add: t)
  note M = mul_pass_tier [OF alt, where A = A, unfolded item_pairs_map_Str item_value.simps]
  show ?thesis
  proof (cases "mul_tier A (Fin (digit_value d)) (pairs rest)")
    case None
    with M have "mul_pass A (Str d # map Str rest) = Inr (Return NaN)" by simp
    with None show ?thesis by (simp add: t spec_evaluate_def evaluate_def)
  next
    case (Some p)
    obtain u ts where p: "p = (u, ts)" by (cases p)
    from M Some p obtain y ys where
      mp: "mul_pass A (Str d # map Str rest) = Inr (Continue (y # ys))" and
      alt': "alternating is_additive (y # ys)" and
      y: "item_value y = u" and ys: "item_pairs ys = ts"
      by auto
    from add_pass_tier [OF alt'] y ys obtain z where
      ap: "add_pass A (y # ys) = Inr [z]" and z: "operand_ok z" and
      zv: "item_value z = add_tier A u ts"
      by auto
    from Some p mp ap zv float_of_operand [OF z] show ?thesis
      by (simp add: t spec_evaluate_def evaluate_def)
  qed
qed

subsection \<open>When the evaluation is invalid\<close>

lemma mul_tier_None_iff:
  "mul_tier A acc ps = None \<longleftrightarrow> (\<exists>v. (''/'', v) \<in> set ps \<and> is_zero v)"
proof (induction ps arbitrary: acc)
  case Nil
  show ?case by simp
next
  case (Cons p ps)
  obtain op v where p: "p = (op, v)" by (cases p)
  show ?case
  proof (cases "\<exists>v. (''/'', v) \<in> set ps \<and> is_zero v")
    case True
    with Cons.IH have n: "\<And>acc. mul_tier A acc ps = None" by blast
    from True have "\<exists>w. (''/'', w) \<in> set (p # ps) \<and> is_zero w" by auto
    moreover have "mul_tier A acc (p # ps) = None" by (simp add: p n)
    ultimately show ?thesis by simp
  next
    case False
    with Cons.IH have "\<And>acc. mul_tier A acc ps \<noteq> None" by blast
    then have n: "\<And>acc. \<exists>t ts. mul_tier A acc ps = Some (t, ts)" by auto
    obtain t ts where t: "mul_tier A v ps = Some (t, ts)" using n by blast
    obtain t1 ts1 where t1: "mul_tier A (fmul A acc v) ps = Some (t1, ts1)" using n by blast
    obtain t2 ts2 where t2: "mul_tier A (fdiv A acc v) ps = Some (t2, ts2)" using n by blast
    have "mul_tier A acc (p # ps) = None \<longleftrightarrow> op = ''/'' \<and> is_zero v"
      by (simp add: p t t1 t2)
    moreover have "(\<exists>w. (''/'', w) \<in> set (p # ps) \<and> is_zero w) \<longleftrightarrow> op = ''/'' \<and> is_zero v"
      using False by (auto simp: p)
    ultimately show ?thesis by simp
  qed
qed

lemma digit_value_zero:
  assumes "is_digit_token d"
  shows "digit_value d = 0 \<longleftrightarrow> d = ''0''"
  using assms
  by (cases rule: digit_token_cases) (simp_all add: digit_value_def digit_symbols_def)

lemma digit_not_slash: "is_digit_token d \<Longrightarrow> d \<noteq> ''/''"
  by (auto simp: is_digit_token_def digit_symbols_def)

lemma pairs_division_by_zero:
  assumes "well_formed tokens"
  shows "(\<exists>v. (''/'', v) \<in> set (pairs (tl tokens)) \<and> is_zero v) \<longleftrightarrow>
         (\<exists>i. Suc i < length tokens \<and> tokens ! i = ''/'' \<and> tokens ! Suc i = ''0'')"
  using assms
proof (induction tokens rule: well_formed.induct)
  case 1
  then show ?case by simp
next
  case (2 d)
  show ?case by simp
next
  case (3 d op rest)
  from "3.prems" have d: "is_digit_token d" and rest: "well_formed rest" by simp_all
  from rest obtain d' rest' where r: "rest = d' # rest'" by (cases rest) auto
  from rest r have d': "is_digit_token d'" by (cases rest') simp_all
  note IH = "3.IH" [OF rest]
  let ?ts = "d # op # rest"
  let ?R = "\<lambda>ts. \<exists>i. Suc i < length ts \<and> ts ! i = ''/'' \<and> ts ! Suc i = ''0''"
  have L: "(\<exists>v. (''/'', v) \<in> set (pairs (tl ?ts)) \<and> is_zero v) \<longleftrightarrow>
           (op = ''/'' \<and> d' = ''0'') \<or> (\<exists>v. (''/'', v) \<in> set (pairs (tl rest)) \<and> is_zero v)"
    using digit_value_zero [OF d'] by (auto simp: r)
  have R: "?R ?ts \<longleftrightarrow> (op = ''/'' \<and> d' = ''0'') \<or> ?R rest"
  proof
    assume "?R ?ts"
    then obtain i where i: "Suc i < length ?ts" "?ts ! i = ''/''" "?ts ! Suc i = ''0''"
      by blast
    show "(op = ''/'' \<and> d' = ''0'') \<or> ?R rest"
    proof (cases i)
      case 0
      with i(2) digit_not_slash [OF d] show ?thesis by simp
    next
      case (Suc j)
      show ?thesis
      proof (cases j)
        case 0
        with Suc i r show ?thesis by simp
      next
        case (Suc k)
        with \<open>i = Suc j\<close> i have "Suc k < length rest \<and> rest ! k = ''/'' \<and> rest ! Suc k = ''0''"
          by simp
        then show ?thesis by blast
      qed
    qed
  next
    assume "(op = ''/'' \<and> d' = ''0'') \<or> ?R rest"
    then show "?R ?ts"
    proof
      assume "op = ''/'' \<and> d' = ''0''"
      then have "Suc (Suc 0) < length ?ts \<and> ?ts ! Suc 0 = ''/'' \<and> ?ts ! Suc (Suc 0) = ''0''"
        by (simp add: r)
      then show ?thesis by blast
    next
      assume "?R rest"
      then obtain k where "Suc k < length rest" "rest ! k = ''/''" "rest ! Suc k = ''0''"
        by blast
      then have "Suc (Suc (Suc k)) < length ?ts \<and> ?ts ! Suc (Suc k) = ''/'' \<and>
                 ?ts ! Suc (Suc (Suc k)) = ''0''"
        by simp
      then show ?thesis by blast
    qed
  qed
  from L R IH show ?case by simp
qed

lemma evaluate_NaN_iff:
  assumes "well_formed tokens"
  shows "evaluate A tokens = Inr NaN \<longleftrightarrow>
         (\<exists>i. Suc i < length tokens \<and> tokens ! i = ''/'' \<and> tokens ! Suc i = ''0'')"
proof -
  from assms obtain d rest where t: "tokens = d # rest" by (cases tokens) auto
  from evaluate_refines [OF assms] obtain r where
    r: "spec_evaluate A tokens = Some r" "evaluate A tokens = Inr r" by blast
  have "r = NaN \<longleftrightarrow> mul_tier A (Fin (digit_value d)) (pairs rest) = None"
    using r(1) by (auto simp: spec_evaluate_def t split: option.splits)
  also have "\<dots> \<longleftrightarrow> (\<exists>v. (''/'', v) \<in> set (pairs (tl tokens)) \<and> is_zero v)"
    by (simp add: mul_tier_None_iff t)
  also note pairs_division_by_zero [OF assms]
  finally show ?thesis using r(2) by simp
qed

subsection \<open>Integer arithmetic and the absolute value\<close>

lemma exact_fadd:
  assumes "exact_on_integers A" "\<bar>m\<bar> \<le> 2 ^ 53" "\<bar>n\<bar> \<le> 2 ^ 53" "\<bar>m + n\<bar> \<le> 2 ^ 53"
  shows "fadd A (Fin (of_int m)) (Fin (of_int n)) = Fin (of_int (m + n))"
  using assms unfolding exact_on_integers_def by blast

lemma exact_fsub:
  assumes "exact_on_integers A" "\<bar>m\<bar> \<le> 2 ^ 53" "\<bar>n\<bar> \<le> 2 ^ 53" "\<bar>m - n\<bar> \<le> 2 ^ 53"
  shows "fsub A (Fin (of_int m)) (Fin (of_int n)) = Fin (of_int (m - n))"
  using assms unfolding exact_on_integers_def by blast

lemma exact_fmul:
  assumes "exact_on_integers A" "\<bar>m\<bar> \<le> 2 ^ 53" "\<bar>n\<bar> \<le> 2 ^ 53" "\<bar>m * n\<bar> \<le> 2 ^ 53"
  shows "fmul A (Fin (of_int m)) (Fin (of_int n)) = Fin (of_int (m * n))"
  using assms unfolding exact_on_integers_def by blast

lemma exact_arith_exact: "exact_on_integers exact_arith"
  by (simp add: exact_on_integers_def exact_arith_def)

lemma fabs_FNaN_iff: "fabs x = FNaN \<longleftrightarrow> x = FNaN"
  by (cases x) simp_all

lemma fabs_nonneg: "x \<noteq> FNaN \<Longrightarrow> nonneg (fabs x)"
  by (cases x) simp_all

lemma evaluate_single_digit:
  assumes "is_digit_token d"
  shows "evaluate A [d] = Inr (Val (Num (Fin (digit_value d))))"
proof -
  have "well_formed [d]" using assms by simp
  from evaluate_refines [OF this, of A] show ?thesis
    by (auto simp: spec_evaluate_def)
qed

lemma evaluate_one_by_zero: "evaluate A [''1'', ''/'', ''0''] = Inr NaN"
proof -
  have "well_formed [''1'', ''/'', ''0'']"
    by (simp add: is_digit_token_def digit_symbols_def is_operator_token_def
        operator_symbols_def)
  from evaluate_NaN_iff [OF this, of A] show ?thesis
    by (auto intro: exI [of _ "Suc 0"])
qed

text \<open>
  A run of multiplications that overflows: the product of four nines is beyond the
  range of \<open>small_arith\<close>, and the infinity times zero is a NaN. Grouped from the
  right the same product would be zero.
\<close>

lemma evaluate_overflow_example:
  "well_formed [''9'', ''*'', ''9'', ''*'', ''9'', ''*'', ''9'', ''*'', ''0''] \<and>
   evaluate small_arith [''9'', ''*'', ''9'', ''*'', ''9'', ''*'', ''9'', ''*'', ''0''] =
     Inr (Val (Num FNaN)) \<and>
   fmul small_arith (Fin 9) (fmul small_arith (Fin 9) (fmul small_arith (Fin 9)
     (fmul small_arith (Fin 9) (Fin 0)))) = Fin 0"
proof -
  have wf: "well_formed [''9'', ''*'', ''9'', ''*'', ''9'', ''*'', ''9'', ''*'', ''0'']"
    by (simp add: is_digit_token_def digit_symbols_def is_operator_token_def
        operator_symbols_def)
  have s: "spec_evaluate small_arith
             [''9'', ''*'', ''9'', ''*'', ''9'', ''*'', ''9'', ''*'', ''0''] =
           Some (Val (Num FNaN))"
    by (simp add: spec_evaluate_def digit_value_def digit_symbols_def small_arith_def)
  have e: "evaluate small_arith [''9'', ''*'', ''9'', ''*'', ''9'', ''*'', ''9'', ''*'', ''0''] =
           Inr (Val (Num FNaN))"
    using evaluate_refines [OF wf, of small_arith] s by auto
  have r: "fmul small_arith (Fin 9) (fmul small_arith (Fin 9) (fmul small_arith (Fin 9)
             (fmul small_arith (Fin 9) (Fin 0)))) = Fin 0"
    by (simp add: small_arith_def)
  from wf e r show ?thesis by (intro conjI)
qed

section \<open>Claims about the evaluator and the fitness function\<close>

text \<open>
  Claim C1. For every well-formed token sequence, and whatever the float arithmetic
  computes, the evaluator returns what the specification's evaluation gives: all
  multiplicative operators resolved left to right before any additive operator, each
  tier left to right, the running result being the left operand of the next operation.
  So 1/5*3*5 is ((1/5)*3)*5 and 1+2+3 is (1+2)+3 in the machine's operations, and
  2+3*4 is 2+(3*4), which is 14.0 since the arithmetic is exact on small integers.
\<close>

theorem evaluate_precedence:
  assumes "well_formed tokens"
  shows "(\<exists>r. spec_evaluate A tokens = Some r \<and> evaluate A tokens = Inr r) \<and>
         evaluate A [''1'', ''/'', ''5'', ''*'', ''3'', ''*'', ''5''] =
           Inr (Val (Num (fmul A (fmul A (fdiv A (Fin 1) (Fin 5)) (Fin 3)) (Fin 5)))) \<and>
         evaluate A [''1'', ''+'', ''2'', ''+'', ''3''] =
           Inr (Val (Num (fadd A (fadd A (Fin 1) (Fin 2)) (Fin 3)))) \<and>
         evaluate A [''2'', ''+'', ''3'', ''*'', ''4''] =
           Inr (Val (Num (fadd A (Fin 2) (fmul A (Fin 3) (Fin 4))))) \<and>
         (exact_on_integers A \<longrightarrow>
            evaluate A [''2'', ''+'', ''3'', ''*'', ''4''] = Inr (Val (Num (Fin 14))))"
proof -
  have wf1: "well_formed [''1'', ''/'', ''5'', ''*'', ''3'', ''*'', ''5'']"
    and wf2: "well_formed [''1'', ''+'', ''2'', ''+'', ''3'']"
    and wf3: "well_formed [''2'', ''+'', ''3'', ''*'', ''4'']"
    by (simp_all add: is_digit_token_def digit_symbols_def is_operator_token_def
        operator_symbols_def)
  have s1: "spec_evaluate A [''1'', ''/'', ''5'', ''*'', ''3'', ''*'', ''5''] =
            Some (Val (Num (fmul A (fmul A (fdiv A (Fin 1) (Fin 5)) (Fin 3)) (Fin 5))))"
    by (simp add: spec_evaluate_def digit_value_def digit_symbols_def)
  have s2: "spec_evaluate A [''1'', ''+'', ''2'', ''+'', ''3''] =
            Some (Val (Num (fadd A (fadd A (Fin 1) (Fin 2)) (Fin 3))))"
    by (simp add: spec_evaluate_def digit_value_def digit_symbols_def)
  have s3: "spec_evaluate A [''2'', ''+'', ''3'', ''*'', ''4''] =
            Some (Val (Num (fadd A (Fin 2) (fmul A (Fin 3) (Fin 4)))))"
    by (simp add: spec_evaluate_def digit_value_def digit_symbols_def)
  have e1: "evaluate A [''1'', ''/'', ''5'', ''*'', ''3'', ''*'', ''5''] =
            Inr (Val (Num (fmul A (fmul A (fdiv A (Fin 1) (Fin 5)) (Fin 3)) (Fin 5))))"
    using evaluate_refines [OF wf1, of A] s1 by auto
  have e2: "evaluate A [''1'', ''+'', ''2'', ''+'', ''3''] =
            Inr (Val (Num (fadd A (fadd A (Fin 1) (Fin 2)) (Fin 3))))"
    using evaluate_refines [OF wf2, of A] s2 by auto
  have e3: "evaluate A [''2'', ''+'', ''3'', ''*'', ''4''] =
            Inr (Val (Num (fadd A (Fin 2) (fmul A (Fin 3) (Fin 4)))))"
    using evaluate_refines [OF wf3, of A] s3 by auto
  have e4: "exact_on_integers A \<longrightarrow>
            evaluate A [''2'', ''+'', ''3'', ''*'', ''4''] = Inr (Val (Num (Fin 14)))"
  proof
    assume ex: "exact_on_integers A"
    have m: "fmul A (Fin 3) (Fin 4) = Fin 12"
      using exact_fmul [OF ex, of 3 4] by simp
    have a: "fadd A (Fin 2) (Fin 12) = Fin 14"
      using exact_fadd [OF ex, of 2 12] by simp
    show "evaluate A [''2'', ''+'', ''3'', ''*'', ''4''] = Inr (Val (Num (Fin 14)))"
      by (simp add: e3 m a)
  qed
  have r: "\<exists>r. spec_evaluate A tokens = Some r \<and> evaluate A tokens = Inr r"
    using evaluate_refines [OF assms, of A] by blast
  from r e1 e2 e3 e4 show ?thesis by (intro conjI)
qed

theorem evaluate_precedence_witness:
  "well_formed [''8'', ''/'', ''4'', ''-'', ''3'', ''*'', ''2'', ''/'', ''4''] \<and>
   spec_evaluate exact_arith [''8'', ''/'', ''4'', ''-'', ''3'', ''*'', ''2'', ''/'', ''4''] =
     Some (Val (Num (Fin (1 / 2)))) \<and>
   evaluate exact_arith [''8'', ''/'', ''4'', ''-'', ''3'', ''*'', ''2'', ''/'', ''4''] =
     Inr (Val (Num (Fin (1 / 2)))) \<and>
 evaluate exact_arith [''2'', ''+'', ''3'', ''*'', ''4''] = Inr (Val (Num (Fin 14))) \<and>
   evaluate small_arith [''1'', ''/'', ''5'', ''*'', ''3'', ''*'', ''5''] =
     Inr (Val (Num (Fin 3)))"
proof -
  have wf: "well_formed [''8'', ''/'', ''4'', ''-'', ''3'', ''*'', ''2'', ''/'', ''4'']"
    by (simp add: is_digit_token_def digit_symbols_def is_operator_token_def
        operator_symbols_def)
  have s: "spec_evaluate exact_arith
             [''8'', ''/'', ''4'', ''-'', ''3'', ''*'', ''2'', ''/'', ''4''] =
           Some (Val (Num (Fin (1 / 2))))"
    by (simp add: spec_evaluate_def digit_value_def digit_symbols_def exact_arith_def)
  have m: "fmul small_arith (fmul small_arith (fdiv small_arith (Fin 1) (Fin 5)) (Fin 3)) (Fin 5) =
           Fin 3"
    by (simp add: small_arith_def)
  from evaluate_precedence [OF wf, of exact_arith] evaluate_precedence [OF wf, of small_arith]
    s wf exact_arith_exact m
  show ?thesis by auto
qed

text \<open>
  Claim C2, as stated, fails on the empty token sequence: \<^verbatim>\<open>_evaluate([])\<close> reads
  \<^verbatim>\<open>output[0]\<close> of the empty list, so fitness raises IndexError and returns no NaN.
\<close>

theorem fitness_empty_counterexample:
  "fitness exact_arith [] (PyInt 5) = Inl IndexError \<and>
   fitness exact_arith [] (PyInt 5) \<noteq> Inr NaN"
  by (simp add: fitness_def evaluate_def mul_pass.simps add_pass.simps py_get_def py_index_def)

text \<open>
  Claim C2, amended. For every token sequence, every target and whatever the float
  arithmetic computes: when the evaluation is invalid (the marker NaN), the fitness is
  that marker; when the evaluation is a float \<open>v\<close> and the target is the float \<open>t\<close>
  (an \<^verbatim>\<open>int\<close> target after its conversion), the fitness is \<open>abs (t - v)\<close> in the
  machine's subtraction. That float is not negative, unless the subtraction gave a NaN
  (as it does when \<open>v\<close> is a NaN that arithmetic produced after an overflow): then the
  fitness is a NaN float, which is not the marker and is not \<^verbatim>\<open>>= 0\<close>. An \<^verbatim>\<open>int\<close>
  target too large for a float raises OverflowError. Every well-formed token sequence
  evaluates to the marker or to a float, so one of these cases applies to it. With
  arithmetic exact on small integers, fitness(["5"], 8) is 3 and fitness(["5"], 5) is 0.
\<close>

theorem fitness_of_evaluation:
  "(evaluate A tokens = Inr NaN \<longrightarrow> fitness A tokens target = Inr NaN) \<and>
   (\<forall>v t. evaluate A tokens = Inr (Val (Num v)) \<and> to_float A target = Inr t \<longrightarrow>
        fitness A tokens target = Inr (Val (Num (fabs (fsub A t v)))) \<and>
        fitness A tokens target \<noteq> Inr NaN \<and>
        (fsub A t v \<noteq> FNaN \<longrightarrow> nonneg (fabs (fsub A t v))) \<and>
        (fsub A t v = FNaN \<longrightarrow>
           fabs (fsub A t v) = FNaN \<and> \<not> nonneg (fabs (fsub A t v)))) \<and>
   (\<forall>v e. evaluate A tokens = Inr (Val (Num v)) \<and> to_float A target = Inl e \<longrightarrow>
        e = OverflowError \<and> fitness A tokens target = Inl OverflowError) \<and>
   (well_formed tokens \<longrightarrow>
      evaluate A tokens = Inr NaN \<or> (\<exists>v. evaluate A tokens = Inr (Val (Num v)))) \<and>
   (exact_on_integers A \<longrightarrow>
      fitness A [''5''] (PyInt 8) = Inr (Val (Num (Fin 3))) \<and>
      fitness A [''5''] (PyInt 5) = Inr (Val (Num (Fin 0))))"
proof -
  have a: "evaluate A tokens = Inr NaN \<longrightarrow> fitness A tokens target = Inr NaN"
    by (simp add: fitness_def)
  have b: "\<forall>v t. evaluate A tokens = Inr (Val (Num v)) \<and> to_float A target = Inr t \<longrightarrow>
        fitness A tokens target = Inr (Val (Num (fabs (fsub A t v)))) \<and>
        fitness A tokens target \<noteq> Inr NaN \<and>
        (fsub A t v \<noteq> FNaN \<longrightarrow> nonneg (fabs (fsub A t v))) \<and>
        (fsub A t v = FNaN \<longrightarrow>
           fabs (fsub A t v) = FNaN \<and> \<not> nonneg (fabs (fsub A t v)))"
    by (simp add: fitness_def fabs_nonneg)
  have o: "\<forall>v e. evaluate A tokens = Inr (Val (Num v)) \<and> to_float A target = Inl e \<longrightarrow>
        e = OverflowError \<and> fitness A tokens target = Inl OverflowError"
    by (cases target) (auto simp: fitness_def split: if_splits option.splits)
  have c: "well_formed tokens \<longrightarrow>
      evaluate A tokens = Inr NaN \<or> (\<exists>v. evaluate A tokens = Inr (Val (Num v)))"
  proof
    assume "well_formed tokens"
    from evaluate_refines [OF this, of A]
    show "evaluate A tokens = Inr NaN \<or> (\<exists>v. evaluate A tokens = Inr (Val (Num v)))"
      by auto
  qed
  have d: "exact_on_integers A \<longrightarrow>
      fitness A [''5''] (PyInt 8) = Inr (Val (Num (Fin 3))) \<and>
      fitness A [''5''] (PyInt 5) = Inr (Val (Num (Fin 0)))"
  proof
    assume ex: "exact_on_integers A"
    have five: "is_digit_token ''5''"
      by (simp add: is_digit_token_def digit_symbols_def)
    have e: "evaluate A [''5''] = Inr (Val (Num (Fin 5)))"
      using evaluate_single_digit [OF five, of A]
      by (simp add: digit_value_def digit_symbols_def)
    have s8: "fsub A (Fin 8) (Fin 5) = Fin 3"
      using exact_fsub [OF ex, of 8 5] by simp
    have s5: "fsub A (Fin 5) (Fin 5) = Fin 0"
      using exact_fsub [OF ex, of 5 5] by simp
    show "fitness A [''5''] (PyInt 8) = Inr (Val (Num (Fin 3))) \<and>
          fitness A [''5''] (PyInt 5) = Inr (Val (Num (Fin 0)))"
      by (simp add: fitness_def e s8 s5)
  qed
  from a b o c d show ?thesis by (intro conjI)
qed

theorem fitness_of_evaluation_witness:
  "well_formed [''5''] \<and> evaluate exact_arith [''5''] = Inr (Val (Num (Fin 5))) \<and>
   to_float exact_arith (PyInt 8) = Inr (Fin 8) \<and>
   fitness exact_arith [''5''] (PyInt 8) = Inr (Val (Num (Fin 3))) \<and>
   fitness exact_arith [''5''] (PyInt 5) = Inr (Val (Num (Fin 0))) \<and>
   fitness exact_arith [''5''] (PyFloat (Fin (17 / 2))) = Inr (Val (Num (Fin (7 / 2)))) \<and>
   to_float exact_arith (PyInt (2 ^ 1024)) = Inl OverflowError \<and>
   fitness exact_arith [''5''] (PyInt (2 ^ 1024)) = Inl OverflowError \<and>
   fitness small_arith [''9'', ''*'', ''9'', ''*'', ''9'', ''*'', ''9'', ''*'', ''0''] (PyInt 5) =
     Inr (Val (Num FNaN)) \<and>
   evaluate exact_arith [''1'', ''/'', ''0''] = Inr NaN \<and>
   fitness exact_arith [''1'', ''/'', ''0''] (PyInt 8) = Inr NaN"
proof -
  have wf: "well_formed [''5'']"
    by (simp add: is_digit_token_def digit_symbols_def)
  have five: "is_digit_token ''5''"
    by (simp add: is_digit_token_def digit_symbols_def)
  have e: "evaluate exact_arith [''5''] = Inr (Val (Num (Fin 5)))"
    using evaluate_single_digit [OF five, of exact_arith]
    by (simp add: digit_value_def digit_symbols_def)
  have z: "evaluate exact_arith [''1'', ''/'', ''0''] = Inr NaN"
    by (rule evaluate_one_by_zero)
  have t8: "to_float exact_arith (PyInt 8) = Inr (Fin 8)"
    by simp
  have th: "to_float exact_arith (PyFloat (Fin (17 / 2))) = Inr (Fin (17 / 2))"
    by simp
  have sh: "fsub exact_arith (Fin (17 / 2)) (Fin 5) = Fin (7 / 2)"
    by (simp add: exact_arith_def)
  have big: "to_float exact_arith (PyInt (2 ^ 1024)) = Inl OverflowError"
    by (simp add: exact_arith_def)
  have o: "evaluate small_arith [''9'', ''*'', ''9'', ''*'', ''9'', ''*'', ''9'', ''*'', ''0''] =
           Inr (Val (Num FNaN))"
    using evaluate_overflow_example by blast
  have t5: "to_float small_arith (PyInt 5) = Inr (Fin 5)"
    by simp
  have t: "fsub small_arith (Fin 5) FNaN = FNaN"
    by (simp add: small_arith_def)
  note W = fitness_of_evaluation [of exact_arith "[''5'']" "PyInt 8"]
  note H = fitness_of_evaluation [of exact_arith "[''5'']" "PyFloat (Fin (17 / 2))"]
  note B = fitness_of_evaluation [of exact_arith "[''5'']" "PyInt (2 ^ 1024)"]
  note S = fitness_of_evaluation [of small_arith
      "[''9'', ''*'', ''9'', ''*'', ''9'', ''*'', ''9'', ''*'', ''0'']" "PyInt 5"]
  note Z = fitness_of_evaluation [of exact_arith "[''1'', ''/'', ''0'']" "PyInt 8"]
  have f8: "fitness exact_arith [''5''] (PyInt 8) = Inr (Val (Num (Fin 3)))"
    and f5: "fitness exact_arith [''5''] (PyInt 5) = Inr (Val (Num (Fin 0)))"
    using W exact_arith_exact by simp_all
  have fh: "fitness exact_arith [''5''] (PyFloat (Fin (17 / 2))) = Inr (Val (Num (Fin (7 / 2))))"
    using H e th sh by simp
  have fb: "fitness exact_arith [''5''] (PyInt (2 ^ 1024)) = Inl OverflowError"
    using B e big by blast
  have fs: "fitness small_arith [''9'', ''*'', ''9'', ''*'', ''9'', ''*'', ''9'', ''*'', ''0'']
              (PyInt 5) = Inr (Val (Num FNaN))"
    using S o t5 t by simp
  have fz: "fitness exact_arith [''1'', ''/'', ''0''] (PyInt 8) = Inr NaN"
    using Z z by blast
  from wf e t8 f8 f5 fh big fb fs z fz show ?thesis by (intro conjI)
qed

text \<open>
  Claim C4. Whenever the scan of the multiplicative pass stops at a \<^verbatim>\<open>"/"\<close> whose
  right operand converts to zero, the loop body returns NaN at once: nothing is computed
  or replaced, the pass and the whole evaluation return NaN. This holds for the list of
  any iteration of the pass and whatever the float arithmetic computes. For a
  well-formed token sequence every \<^verbatim>\<open>"/"\<close> comes up in the scan unless NaN was
  returned before, so its evaluation is NaN exactly when some \<^verbatim>\<open>"/"\<close> is followed by
  \<^verbatim>\<open>"0"\<close>. In particular evaluate ["1","/","0"] is NaN.
\<close>

theorem division_by_zero_invalid:
  assumes "first_index is_mul out = Some i"
    and "out ! i = Str ''/''"
    and "operand A out (int i + 1) = Inr (Fin 0)"
  shows "mul_chunk A out i = Inr (Return NaN) \<and>
         mul_pass A out = Inr (Return NaN) \<and>
         (\<forall>tokens. out = map Str tokens \<longrightarrow> evaluate A tokens = Inr NaN) \<and>
         (\<forall>tokens. well_formed tokens \<longrightarrow>
            (evaluate A tokens = Inr NaN \<longleftrightarrow>
             (\<exists>j. Suc j < length tokens \<and> tokens ! j = ''/'' \<and> tokens ! Suc j = ''0''))) \<and>
         evaluate A [''1'', ''/'', ''0''] = Inr NaN"
proof -
  have c: "mul_chunk A out i = Inr (Return NaN)"
    using assms(2,3) by (simp add: mul_chunk_def)
  have p: "mul_pass A out = Inr (Return NaN)"
    using assms(1) c by (simp add: mul_pass.simps [of A out])
  have e: "\<forall>tokens. out = map Str tokens \<longrightarrow> evaluate A tokens = Inr NaN"
    using p by (auto simp: evaluate_def)
  have w: "\<forall>tokens. well_formed tokens \<longrightarrow>
            (evaluate A tokens = Inr NaN \<longleftrightarrow>
             (\<exists>j. Suc j < length tokens \<and> tokens ! j = ''/'' \<and> tokens ! Suc j = ''0''))"
    using evaluate_NaN_iff [of _ A] by blast
  have "evaluate A [''1'', ''/'', ''0''] = Inr NaN"
    by (rule evaluate_one_by_zero)
  with c p e w show ?thesis by blast
qed

theorem division_by_zero_invalid_witness:
  "first_index is_mul (map Str [''6'', ''-'', ''3'', ''/'', ''0'', ''*'', ''2'']) = Some 3 \<and>
   map Str [''6'', ''-'', ''3'', ''/'', ''0'', ''*'', ''2''] ! 3 = Str ''/'' \<and>
   operand exact_arith (map Str [''6'', ''-'', ''3'', ''/'', ''0'', ''*'', ''2'']) (int 3 + 1) =
     Inr (Fin 0) \<and>
   evaluate exact_arith [''6'', ''-'', ''3'', ''/'', ''0'', ''*'', ''2''] = Inr NaN"
proof -
  have f: "first_index is_mul (map Str [''6'', ''-'', ''3'', ''/'', ''0'', ''*'', ''2'']) = Some 3"
    by (simp add: is_mul_def)
  have x: "map Str [''6'', ''-'', ''3'', ''/'', ''0'', ''*'', ''2''] ! 3 = Str ''/''"
    by simp
  have z: "operand exact_arith (map Str [''6'', ''-'', ''3'', ''/'', ''0'', ''*'', ''2''])
             (int 3 + 1) = Inr (Fin 0)"
    by (simp add: operand_def py_get_def py_index_def float_of_str_def isdigit_def
        digit_of_char_def)
  from division_by_zero_invalid [OF f x z] f x z show ?thesis by simp
qed


section \<open>The random source\<close>

text \<open>
  The program draws from Python's global generator. Here the generator is explicit: a
  state that each draw reads and replaces, with the two draws everything else in
  \<^verbatim>\<open>random\<close> is built from: \<^verbatim>\<open>random()\<close>, a float in [0, 1), and
  \<^verbatim>\<open>_randbelow(n)\<close>, an integer in [0, n). A theorem about every well-behaved source
  and every state is a theorem about every outcome of the draws.
\<close>

record 's random_source =
  rnd_random :: "'s \<Rightarrow> real \<times> 's"
  rnd_randbelow :: "nat \<Rightarrow> 's \<Rightarrow> nat \<times> 's"

definition well_behaved :: "'s random_source \<Rightarrow> bool" where
  "well_behaved R \<longleftrightarrow>
     (\<forall>s. 0 \<le> fst (rnd_random R s) \<and> fst (rnd_random R s) < 1) \<and>
     (\<forall>n s. 0 < n \<longrightarrow> fst (rnd_randbelow R n s) < n)"

text \<open>
  \<^verbatim>\<open>random.choice(seq)\<close> is \<^verbatim>\<open>seq[_randbelow(len(seq))]\<close> (IndexError on an empty
  sequence); \<^verbatim>\<open>random.sample(population, 1)[0]\<close> is
  \<^verbatim>\<open>population[_randbelow(len(population))]\<close> (ValueError on an empty population);
  \<^verbatim>\<open>random.uniform(a, b)\<close> is \<^verbatim>\<open>a + (b - a) * random()\<close>;
  \<^verbatim>\<open>random.randint(a, b)\<close> is \<^verbatim>\<open>a + _randbelow(b + 1 - a)\<close> (ValueError on an empty
  range). An index outside the list, which no well-behaved source gives, raises
  IndexError.
\<close>

definition choice :: "'s random_source \<Rightarrow> 'a list \<Rightarrow> 's \<Rightarrow> error + ('a \<times> 's)" where
  "choice R seq s =
     (if seq = [] then Inl IndexError
      else (let (k, s') = rnd_randbelow R (length seq) s
            in if k < length seq then Inr (seq ! k, s') else Inl IndexError))"

definition sample1 :: "'s random_source \<Rightarrow> 'a list \<Rightarrow> 's \<Rightarrow> error + ('a \<times> 's)" where
  "sample1 R population s =
     (if length population < 1 then Inl ValueError
      else (let (j, s') = rnd_randbelow R (length population) s
            in if j < length population then Inr (population ! j, s') else Inl IndexError))"


definition randint :: "'s random_source \<Rightarrow> int \<Rightarrow> int \<Rightarrow> 's \<Rightarrow> error + (int \<times> 's)" where
  "randint R a b s =
     (let width = b + 1 - a
      in if 0 < width
         then (let (k, s') = rnd_randbelow R (nat width) s in Inr (a + int k, s'))
         else Inl ValueError)"

section \<open>The chromosome factory and the genetic operators\<close>

text \<open>\<^verbatim>\<open>generate_chromosome\<close>: the loop appends one chosen key per iteration.\<close>

fun generate_loop ::
  "'s random_source \<Rightarrow> nat \<Rightarrow> chromosome \<Rightarrow> 's \<Rightarrow> error + (chromosome \<times> 's)" where
  "generate_loop R 0 output s = Inr (output, s)"
| "generate_loop R (Suc n) output s =
     (case choice R GREYCODE_keys s of
        Inl e \<Rightarrow> Inl e
      | Inr (g, s') \<Rightarrow> generate_loop R n (output @ [g]) s')"

definition generate_chromosome ::
  "'s random_source \<Rightarrow> int \<Rightarrow> 's \<Rightarrow> error + (chromosome \<times> 's)" where
  "generate_chromosome R length' s =
     (if length' < 3 then Inl ValueError else generate_loop R (nat length') [] s)"



text \<open>
  \<^verbatim>\<open>cross\<close>. \<^verbatim>\<open>len(list(zip(c1, c2)))\<close> is the shorter of the two lengths; the slice
  point is at least 1, so the slices are \<open>take\<close> and \<open>drop\<close>.
\<close>

definition cross ::
  "'s random_source \<Rightarrow> chromosome \<Rightarrow> chromosome \<Rightarrow> real \<Rightarrow> 's \<Rightarrow> error + (chromosome \<times> 's)" where
  "cross R c1 c2 rate s =
     (let output = c1;
          max_slice_point = int (length (zip c1 c2)) - 1;
          (u, s1) = rnd_random R s
      in if u \<le> rate
         then (case randint R 1 max_slice_point s1 of
                 Inl e \<Rightarrow> Inl e
               | Inr (slice_point, s2) \<Rightarrow>
                   Inr (take (nat slice_point) c1 @ drop (nat slice_point) c2, s2))
         else Inr (output, s1))"

text \<open>
  \<^verbatim>\<open>mutate\<close>: \<open>n\<close> iterations are left and \<open>i\<close> is the loop index; the gene is
  replaced when the draw is at most the rate.
\<close>

fun mutate_loop ::
  "'s random_source \<Rightarrow> real \<Rightarrow> nat \<Rightarrow> nat \<Rightarrow> chromosome \<Rightarrow> 's \<Rightarrow> error + (chromosome \<times> 's)" where
  "mutate_loop R rate 0 i output s = Inr (output, s)"
| "mutate_loop R rate (Suc n) i output s =
     (let (u, s1) = rnd_random R s
      in if u \<le> rate
         then (case sample1 R GREYCODE_keys s1 of
                 Inl e \<Rightarrow> Inl e
               | Inr (g, s2) \<Rightarrow> mutate_loop R rate n (Suc i) (output[i := g]) s2)
         else mutate_loop R rate n (Suc i) output s1)"

definition mutate ::
  "'s random_source \<Rightarrow> chromosome \<Rightarrow> real \<Rightarrow> 's \<Rightarrow> error + (chromosome \<times> 's)" where
  "mutate R c rate s = mutate_loop R rate (length c) 0 c s"

section \<open>Properties of the factory and the operators\<close>

text \<open>The successive outcomes of \<open>m\<close> draws below \<open>n\<close>.\<close>

fun draws :: "'s random_source \<Rightarrow> nat \<Rightarrow> nat \<Rightarrow> 's \<Rightarrow> nat list" where
  "draws R n 0 s = []"
| "draws R n (Suc m) s = (let (k, s') = rnd_randbelow R n s in k # draws R n m s')"

lemma length_GREYCODE_keys: "length GREYCODE_keys = 14"
  by (simp add: GREYCODE_keys_def GREYCODE_def)

lemma distinct_GREYCODE_keys: "distinct GREYCODE_keys"
  by (simp add: GREYCODE_keys_def GREYCODE_def)

lemma well_behaved_below:
  "well_behaved R \<Longrightarrow> 0 < n \<Longrightarrow> rnd_randbelow R n s = (k, s') \<Longrightarrow> k < n"
  by (auto simp: well_behaved_def dest!: spec [of _ n] spec [of _ s])

lemma choice_keys:
  assumes "well_behaved R"
  shows "choice R GREYCODE_keys s =
         Inr (GREYCODE_keys ! fst (rnd_randbelow R 14 s), snd (rnd_randbelow R 14 s)) \<and>
         fst (rnd_randbelow R 14 s) < 14"
proof -
  obtain k s' where d: "rnd_randbelow R 14 s = (k, s')" by (cases "rnd_randbelow R 14 s")
  from well_behaved_below [OF assms _ d] have "k < 14" by simp
  moreover have "GREYCODE_keys \<noteq> []" using length_GREYCODE_keys by auto
  ultimately show ?thesis
    using d by (simp add: choice_def length_GREYCODE_keys)
qed

lemma sample1_keys:
  assumes "well_behaved R"
  shows "sample1 R GREYCODE_keys s =
         Inr (GREYCODE_keys ! fst (rnd_randbelow R 14 s), snd (rnd_randbelow R 14 s)) \<and>
         fst (rnd_randbelow R 14 s) < 14"
proof -
  obtain k s' where d: "rnd_randbelow R 14 s = (k, s')" by (cases "rnd_randbelow R 14 s")
  from well_behaved_below [OF assms _ d] have "k < 14" by simp
  then show ?thesis
    using d by (simp add: sample1_def length_GREYCODE_keys)
qed

lemma generate_loop_draws:
  assumes "well_behaved R"
  shows "\<exists>s'. generate_loop R n acc s =
           Inr (acc @ map (\<lambda>k. GREYCODE_keys ! k) (draws R 14 n s), s')"
proof (induction n arbitrary: acc s)
  case 0
  show ?case by simp
next
  case (Suc n)
  obtain k s1 where d: "rnd_randbelow R 14 s = (k, s1)" by (cases "rnd_randbelow R 14 s")
  from choice_keys [OF assms, of s] d
  have c: "choice R GREYCODE_keys s = Inr (GREYCODE_keys ! k, s1)" by simp
  from Suc.IH [of "acc @ [GREYCODE_keys ! k]" s1] show ?case
    using c d by simp
qed

lemma draws_bound:
  assumes "well_behaved R" "0 < n"
  shows "length (draws R n m s) = m \<and> (\<forall>k \<in> set (draws R n m s). k < n)"
proof (induction m arbitrary: s)
  case 0
  show ?case by simp
next
  case (Suc m)
  obtain k s1 where d: "rnd_randbelow R n s = (k, s1)" by (cases "rnd_randbelow R n s")
  from well_behaved_below [OF assms d] Suc.IH [of s1] d show ?case by simp
qed

lemma generate_chromosome_spec:
  assumes "well_behaved R"
  shows "(length' < 3 \<longrightarrow> generate_chromosome R length' s = Inl ValueError) \<and>
         (3 \<le> length' \<longrightarrow>
            (\<exists>c s'. generate_chromosome R length' s = Inr (c, s') \<and>
               int (length c) = length' \<and> set c \<subseteq> set GREYCODE_keys \<and>
               c = map (\<lambda>k. GREYCODE_keys ! k) (draws R 14 (nat length') s)))"
proof (intro conjI impI)
  assume "length' < 3"
  then show "generate_chromosome R length' s = Inl ValueError"
    by (simp add: generate_chromosome_def)
next
  assume l: "3 \<le> length'"
  from generate_loop_draws [OF assms, of "nat length'" "[]" s] obtain s' where
    g: "generate_loop R (nat length') [] s =
        Inr (map (\<lambda>k. GREYCODE_keys ! k) (draws R 14 (nat length') s), s')"
    by auto
  from draws_bound [OF assms, of 14 "nat length'" s]
  have len: "length (draws R 14 (nat length') s) = nat length'"
    and b: "\<forall>k \<in> set (draws R 14 (nat length') s). k < 14" by simp_all
  have "set (map (\<lambda>k. GREYCODE_keys ! k) (draws R 14 (nat length') s)) \<subseteq> set GREYCODE_keys"
    using b by (auto simp: length_GREYCODE_keys)
  with g len l show "\<exists>c s'. generate_chromosome R length' s = Inr (c, s') \<and>
               int (length c) = length' \<and> set c \<subseteq> set GREYCODE_keys \<and>
               c = map (\<lambda>k. GREYCODE_keys ! k) (draws R 14 (nat length') s)"
    by (simp add: generate_chromosome_def)
qed

lemma mutate_loop_spec:
  assumes "well_behaved R"
  shows "i + n \<le> length acc \<Longrightarrow>
         \<exists>out s'. mutate_loop R rate n i acc s = Inr (out, s') \<and> length out = length acc \<and>
           (\<forall>j < length acc. out ! j = acc ! j \<or> out ! j \<in> set GREYCODE_keys)"
proof (induction n arbitrary: i acc s)
  case 0
  show ?case by simp
next
  case (Suc n)
  obtain u s1 where r: "rnd_random R s = (u, s1)" by (cases "rnd_random R s")
  show ?case
  proof (cases "u \<le> rate")
    case True
    obtain k s2 where d: "rnd_randbelow R 14 s1 = (k, s2)" by (cases "rnd_randbelow R 14 s1")
    from sample1_keys [OF assms, of s1] d
    have sm: "sample1 R GREYCODE_keys s1 = Inr (GREYCODE_keys ! k, s2)" and k: "k < 14"
      by simp_all
    have key: "GREYCODE_keys ! k \<in> set GREYCODE_keys"
      using k by (simp add: length_GREYCODE_keys)
    from Suc.prems have "Suc i + n \<le> length (acc[i := GREYCODE_keys ! k])" by simp
    from Suc.IH [OF this, of s2] obtain out s' where
      o: "mutate_loop R rate n (Suc i) (acc[i := GREYCODE_keys ! k]) s2 = Inr (out, s')"
         "length out = length acc"
         "\<forall>j < length acc. out ! j = (acc[i := GREYCODE_keys ! k]) ! j \<or>
            out ! j \<in> set GREYCODE_keys"
      by auto
    have "\<forall>j < length acc. out ! j = acc ! j \<or> out ! j \<in> set GREYCODE_keys"
    proof (intro allI impI)
      fix j assume j: "j < length acc"
      with o(3) key show "out ! j = acc ! j \<or> out ! j \<in> set GREYCODE_keys"
        by (cases "j = i") (auto simp: nth_list_update)
    qed
    with o(1,2) r True sm show ?thesis by simp
  next
    case False
    from Suc.prems have "Suc i + n \<le> length acc" by simp
    from Suc.IH [OF this, of s1] r False show ?thesis by simp
  qed
qed

lemma mutate_spec:
  assumes "well_behaved R"
  shows "\<exists>out s'. mutate R c rate s = Inr (out, s') \<and> length out = length c \<and>
           (\<forall>j < length c. out ! j = c ! j \<or> out ! j \<in> set GREYCODE_keys)"
  unfolding mutate_def using mutate_loop_spec [OF assms, of 0 "length c" c rate s] by simp

lemma decode_no_KeyError:
  assumes "set c \<subseteq> set GREYCODE_keys"
  shows "\<exists>tokens. decode c = Inr tokens"
proof -
  have "decode_inv [] False" by (simp add: decode_inv_def)
  from decode_scan_inv [OF assms this] show ?thesis
    by (auto simp: decode_def)
qed

text \<open>
  A well-behaved source for concrete runs: the state counts the draws; \<^verbatim>\<open>random()\<close>
  gives 0.0 at even states and 0.5 at odd ones, \<^verbatim>\<open>_randbelow(n)\<close> the state modulo \<open>n\<close>.
\<close>

definition example_source :: "nat random_source" where
  "example_source =
     \<lparr>rnd_random = (\<lambda>s. (if even s then 0 else 1 / 2, Suc s)),
      rnd_randbelow = (\<lambda>n s. (s mod n, Suc s))\<rparr>"

lemma well_behaved_example: "well_behaved example_source"
  by (simp add: well_behaved_def example_source_def)





lemma cross_spec:
  assumes "well_behaved R"
    and "length c1 = length c2"
    and "2 \<le> length c1"
  shows "\<exists>p s2. 1 \<le> p \<and> p \<le> length c1 - 1 \<and>
           (\<forall>rate. fst (rnd_random R s) \<le> rate \<longrightarrow>
              cross R c1 c2 rate s = Inr (take p c1 @ drop p c2, s2)) \<and>
           (\<forall>rate. rate < fst (rnd_random R s) \<longrightarrow>
              cross R c1 c2 rate s = Inr (c1, snd (rnd_random R s)))"
proof -
  obtain u s1 where r: "rnd_random R s = (u, s1)" by (cases "rnd_random R s")
  let ?w = "length c1 - 1"
  obtain k s2 where d: "rnd_randbelow R ?w s1 = (k, s2)" by (cases "rnd_randbelow R ?w s1")
  have w: "0 < ?w" using assms(3) by simp
  from well_behaved_below [OF assms(1) w d] have k: "k < ?w" .
  have width: "nat (int (length (zip c1 c2)) - 1 + 1 - 1) = ?w"
    using assms(2,3) by simp
  have ri: "randint R 1 (int (length (zip c1 c2)) - 1) s1 = Inr (1 + int k, s2)"
    using d w assms(2) unfolding randint_def Let_def width by simp
  have p: "nat (1 + int k) = Suc k" by simp
  have cr: "\<forall>rate. fst (rnd_random R s) \<le> rate \<longrightarrow>
              cross R c1 c2 rate s = Inr (take (Suc k) c1 @ drop (Suc k) c2, s2)"
    using r ri p by (simp add: cross_def Let_def)
  have copy: "\<forall>rate. rate < fst (rnd_random R s) \<longrightarrow>
            cross R c1 c2 rate s = Inr (c1, snd (rnd_random R s))"
    using r by (simp add: cross_def Let_def)
  have b: "1 \<le> Suc k \<and> Suc k \<le> length c1 - 1" using k by simp
  from b cr copy show ?thesis by blast
qed

text \<open>
  What cross does for equal-length parents of at least two genes. With rate 1.0 it
  always recombines, at a point \<open>p\<close> between 1 and the length minus 1, into the first
  \<open>p\<close> genes of \<open>c1\<close> followed by the genes of \<open>c2\<close> from \<open>p\<close> on, a chromosome of
  the parents' length. For any rate, the same happens whenever the drawn number is at
  most the rate, and only when the drawn number is above the rate an unmodified copy of
  \<open>c1\<close> is returned.
\<close>

theorem cross_single_point:
  assumes "well_behaved R"
    and "length c1 = length c2"
    and "2 \<le> length c1"
  shows "(\<exists>p s'. 1 \<le> p \<and> p \<le> length c1 - 1 \<and>
            cross R c1 c2 1 s = Inr (take p c1 @ drop p c2, s') \<and>
            length (take p c1 @ drop p c2) = length c1) \<and>
         (\<forall>rate. fst (rnd_random R s) \<le> rate \<longrightarrow>
            (\<exists>p s'. 1 \<le> p \<and> p \<le> length c1 - 1 \<and>
               cross R c1 c2 rate s = Inr (take p c1 @ drop p c2, s'))) \<and>
         (\<forall>rate. rate < fst (rnd_random R s) \<longrightarrow>
            cross R c1 c2 rate s = Inr (c1, snd (rnd_random R s)))"
proof -
  from cross_spec [OF assms, of s] obtain p s2 where
    p: "1 \<le> p" "p \<le> length c1 - 1" and
    cr: "\<forall>rate. fst (rnd_random R s) \<le> rate \<longrightarrow>
              cross R c1 c2 rate s = Inr (take p c1 @ drop p c2, s2)" and
    copy: "\<forall>rate. rate < fst (rnd_random R s) \<longrightarrow>
              cross R c1 c2 rate s = Inr (c1, snd (rnd_random R s))"
    by blast
  from assms(1) have "fst (rnd_random R s) \<le> 1"
    using well_behaved_def [of R] by (simp add: less_imp_le)
  with cr have one: "cross R c1 c2 1 s = Inr (take p c1 @ drop p c2, s2)" by blast
  have len: "length (take p c1 @ drop p c2) = length c1"
    using p assms(2,3) by simp
  from p cr copy one len show ?thesis by blast
qed

theorem cross_single_point_witness:
  "length [''0000'', ''0001'', ''0010''] = length [''1111'', ''1110'', ''1101''] \<and>
   2 \<le> length [''0000'', ''0001'', ''0010''] \<and>
   cross example_source [''0000'', ''0001'', ''0010''] [''1111'', ''1110'', ''1101''] 1 0 =
     Inr ([''0000'', ''0001'', ''1101''], 2) \<and>
   cross example_source [''0000'', ''0001'', ''0010''] [''1111'', ''1110'', ''1101''] (1 / 4) 1 =
     Inr ([''0000'', ''0001'', ''0010''], 2)"
proof -
  have l: "length [''0000'', ''0001'', ''0010''] = length [''1111'', ''1110'', ''1101'']"
    by simp
  have g: "2 \<le> length [''0000'', ''0001'', ''0010'']" by simp
  have a: "cross example_source [''0000'', ''0001'', ''0010''] [''1111'', ''1110'', ''1101''] 1 0 =
     Inr ([''0000'', ''0001'', ''1101''], 2)"
    by (simp add: cross_def randint_def example_source_def)
  have b: "(1 / 4 :: real) < fst (rnd_random example_source (1 :: nat))"
    by (simp add: example_source_def)
  from cross_single_point [OF well_behaved_example l g, of 1] b
  have "cross example_source [''0000'', ''0001'', ''0010''] [''1111'', ''1110'', ''1101''] (1 / 4) 1 =
     Inr ([''0000'', ''0001'', ''0010''], snd (rnd_random example_source (1 :: nat)))"
    by blast
  then show ?thesis
    using well_behaved_example l g a by (simp add: example_source_def)
qed

text \<open>
  Claim C6 does not hold of the code. The split at rate 1.0 is as claimed, but the copy
  of \<open>c1\<close> is not returned with probability 1 - rate: \<^verbatim>\<open>random.random()\<close> ranges
  over [0, 1), and the test \<^verbatim>\<open>random.random() <= rate\<close> also succeeds when the draw
  equals the rate. At rate 0, where the claim gives the copy probability 1, a draw of
  exactly 0.0 recombines: here the child ends in the last gene of \<open>c2\<close>.
\<close>

theorem cross_rate_zero_recombines:
  "cross example_source [''0000'', ''0001'', ''0010''] [''1111'', ''1110'', ''1101''] 0 0 =
     Inr ([''0000'', ''0001'', ''1101''], 2) \<and>
   [''0000'', ''0001'', ''1101''] \<noteq> [''0000'', ''0001'', ''0010'']"
  by (simp add: cross_def randint_def example_source_def)

text \<open>
  Claim C7 does not hold of the code: \<^verbatim>\<open>random.random()\<close> ranges over [0, 1), and the
  test \<^verbatim>\<open>random.random() <= rate\<close> succeeds at rate 0 when the draw is exactly 0.0.
  With such a draw mutate replaces the gene: here \<open>0000\<close> becomes \<open>0001\<close>.
\<close>

theorem mutate_rate_zero_changes_gene:
  "mutate example_source [''0000''] 0 0 = Inr ([''0001''], 2) \<and>
   [''0001''] \<noteq> [''0000'']"
  by (simp add: mutate_def sample1_def example_source_def GREYCODE_keys_def GREYCODE_def)

text \<open>When no draw is exactly zero, rate 0 does leave every gene as it is.\<close>

lemma mutate_loop_rate_zero:
  assumes "\<forall>s. 0 < fst (rnd_random R s)"
  shows "\<exists>s'. mutate_loop R 0 n i acc s = Inr (acc, s')"
proof (induction n arbitrary: i s)
  case 0
  show ?case by simp
next
  case (Suc n)
  obtain u s1 where r: "rnd_random R s = (u, s1)" by (cases "rnd_random R s")
  with assms have "0 < u" by (auto dest!: spec [of _ s])
  with Suc.IH [of "Suc i" s1] r show ?case by simp
qed

text \<open>
  Claim C8. generate_chromosome raises ValueError exactly when the length is below 3;
  for a length of at least 3 it returns a chromosome of exactly that many genes, each
  the key at the position of a fresh draw below 14 among the 14 distinct keys of the
  table.
\<close>

theorem generate_chromosome_length:
  assumes "well_behaved R"
  shows "((\<exists>e. generate_chromosome R n s = Inl e) \<longleftrightarrow> n < 3) \<and>
         (n < 3 \<longrightarrow> generate_chromosome R n s = Inl ValueError) \<and>
         (3 \<le> n \<longrightarrow>
            (\<exists>c s'. generate_chromosome R n s = Inr (c, s') \<and>
               int (length c) = n \<and> set c \<subseteq> set GREYCODE_keys \<and>
               c = map (\<lambda>k. GREYCODE_keys ! k) (draws R 14 (nat n) s))) \<and>
         length GREYCODE_keys = 14 \<and> distinct GREYCODE_keys"
  using generate_chromosome_spec [OF assms, of n s] length_GREYCODE_keys
    distinct_GREYCODE_keys
  by (cases "n < 3") auto

theorem generate_chromosome_length_witness:
  "generate_chromosome example_source 2 0 = Inl ValueError \<and>
   generate_chromosome example_source 3 5 = Inr ([''0101'', ''0110'', ''0111''], 8)"
proof -
  have c: "\<And>s. choice example_source GREYCODE_keys s = Inr (GREYCODE_keys ! (s mod 14), Suc s)"
    using length_GREYCODE_keys
    by (auto simp: choice_def example_source_def)
  have n3: "nat 3 = Suc (Suc (Suc 0))" by simp
  have keys: "GREYCODE_keys ! 5 = ''0101''" "GREYCODE_keys ! 6 = ''0110''"
    "GREYCODE_keys ! 7 = ''0111''"
    by (simp_all add: GREYCODE_keys_def GREYCODE_def)
  have gl: "generate_loop example_source (Suc (Suc (Suc 0))) [] 5 =
        Inr ([''0101'', ''0110'', ''0111''], 8)"
    by (simp add: c keys)
  have "generate_chromosome example_source 3 5 = Inr ([''0101'', ''0110'', ''0111''], 8)"
    unfolding generate_chromosome_def n3 gl by simp
  with generate_chromosome_length [OF well_behaved_example, of 2 0] well_behaved_example
  show ?thesis by simp
qed

text \<open>
  Claim C10. Every gene of a chromosome the factory returns is one of the 14 keys of the
  table; mutate leaves each gene as it was or replaces it by one of the 14 keys, so a
  chromosome of valid genes stays one; on such chromosomes decode never raises KeyError.
\<close>

theorem generated_and_mutated_genes_valid:
  assumes "well_behaved R"
  shows "(\<forall>n s c s'. generate_chromosome R n s = Inr (c, s') \<longrightarrow>
            set c \<subseteq> set GREYCODE_keys \<and> (\<exists>tokens. decode c = Inr tokens)) \<and>
         (\<forall>c rate s. \<exists>out s'. mutate R c rate s = Inr (out, s') \<and>
            length out = length c \<and>
            (\<forall>j < length c. out ! j = c ! j \<or> out ! j \<in> set GREYCODE_keys) \<and>
            (set c \<subseteq> set GREYCODE_keys \<longrightarrow>
               set out \<subseteq> set GREYCODE_keys \<and> (\<exists>tokens. decode out = Inr tokens))) \<and>
         length GREYCODE_keys = 14"
proof (intro conjI allI impI)
  fix n s c s'
  assume g: "generate_chromosome R n s = Inr (c, s')"
  show c: "set c \<subseteq> set GREYCODE_keys"
  proof (cases "n < 3")
    case True
    with generate_chromosome_spec [OF assms, of n s] g show ?thesis by simp
  next
    case False
    with generate_chromosome_spec [OF assms, of n s] obtain c' s'' where
      "generate_chromosome R n s = Inr (c', s'')" "set c' \<subseteq> set GREYCODE_keys"
      by auto
    with g show ?thesis by simp
  qed
  from decode_no_KeyError [OF c] show "\<exists>tokens. decode c = Inr tokens" .
next
  fix c rate s
  from mutate_spec [OF assms, of c rate s] obtain out s' where
    m: "mutate R c rate s = Inr (out, s')" "length out = length c"
       "\<forall>j < length c. out ! j = c ! j \<or> out ! j \<in> set GREYCODE_keys"
    by blast
  have v: "set c \<subseteq> set GREYCODE_keys \<longrightarrow>
           set out \<subseteq> set GREYCODE_keys \<and> (\<exists>tokens. decode out = Inr tokens)"
  proof
    assume c: "set c \<subseteq> set GREYCODE_keys"
    have "set out \<subseteq> set GREYCODE_keys"
    proof
      fix g assume "g \<in> set out"
      then obtain j where j: "j < length out" "out ! j = g" by (auto simp: in_set_conv_nth)
      with m(2,3) c show "g \<in> set GREYCODE_keys" by (metis nth_mem subsetD)
    qed
    with decode_no_KeyError [OF this]
    show "set out \<subseteq> set GREYCODE_keys \<and> (\<exists>tokens. decode out = Inr tokens)" by simp
  qed
  with m show "\<exists>out s'. mutate R c rate s = Inr (out, s') \<and>
            length out = length c \<and>
            (\<forall>j < length c. out ! j = c ! j \<or> out ! j \<in> set GREYCODE_keys) \<and>
            (set c \<subseteq> set GREYCODE_keys \<longrightarrow>
               set out \<subseteq> set GREYCODE_keys \<and> (\<exists>tokens. decode out = Inr tokens))"
    by blast
qed (rule length_GREYCODE_keys)

theorem generated_and_mutated_genes_valid_witness:
  "mutate example_source [''1100'', ''0011''] (1 / 4) 0 = Inr ([''0001'', ''0011''], 4) \<and>
   set [''1100'', ''0011''] \<subseteq> set GREYCODE_keys \<and>
   set [''0001'', ''0011''] \<subseteq> set GREYCODE_keys \<and>
   decode [''0001'', ''0011''] = Inr [''1'']"
proof -
  have m: "mutate example_source [''1100'', ''0011''] (1 / 4) 0 = Inr ([''0001'', ''0011''], 4)"
    by (simp add: mutate_def sample1_def example_source_def GREYCODE_keys_def GREYCODE_def
        numeral_2_eq_2)
  have c: "set [''1100'', ''0011''] \<subseteq> set GREYCODE_keys"
    by (simp add: GREYCODE_keys_def GREYCODE_def)
  have d: "decode [''0001'', ''0011''] = Inr [''1'']"
    by (simp add: decode_def GREYCODE_lookup_def GREYCODE_def isdigit_def)
  note t = generated_and_mutated_genes_valid [OF well_behaved_example]
  from conjunct1 [OF conjunct2 [OF t]] obtain out s' where
    o: "mutate example_source [''1100'', ''0011''] (1 / 4) 0 = Inr (out, s')"
       "set [''1100'', ''0011''] \<subseteq> set GREYCODE_keys \<longrightarrow> set out \<subseteq> set GREYCODE_keys"
    by blast
  from o m c have "set [''0001'', ''0011''] \<subseteq> set GREYCODE_keys" by simp
  with well_behaved_example m c d show ?thesis by blast
qed

section \<open>Chromosomes as list objects\<close>

text \<open>
  Python lists are mutable objects and the operators receive references. To state that
  the operators do not modify their inputs, the list objects live in a store: an address
  is an index into the list of all objects, a new object is appended. The genes, Python
  strings, are immutable values. \<open>mutate_heap\<close> and \<open>cross_heap\<close> are \<^verbatim>\<open>mutate\<close> and
  \<^verbatim>\<open>cross\<close> with every copy, slice and concatenation allocating its result and the
  assignment \<^verbatim>\<open>output[i] = ...\<close> updating the object \<^verbatim>\<open>output\<close> refers to. A
  reference always denotes an existing object, so the addresses passed in are below the
  length of the store.
\<close>

type_synonym addr = nat
type_synonym heap = "chromosome list"

definition alloc :: "heap \<Rightarrow> chromosome \<Rightarrow> addr \<times> heap" where
  "alloc h xs = (length h, h @ [xs])"

fun mutate_heap_loop ::
  "'s random_source \<Rightarrow> real \<Rightarrow> nat \<Rightarrow> nat \<Rightarrow> addr \<Rightarrow> heap \<Rightarrow> 's \<Rightarrow> error + (heap \<times> 's)" where
  "mutate_heap_loop R rate 0 i output h s = Inr (h, s)"
| "mutate_heap_loop R rate (Suc n) i output h s =
     (let (u, s1) = rnd_random R s
      in if u \<le> rate
         then (case sample1 R GREYCODE_keys s1 of
                 Inl e \<Rightarrow> Inl e
               | Inr (g, s2) \<Rightarrow>
                   mutate_heap_loop R rate n (Suc i) output (h[output := (h ! output)[i := g]]) s2)
         else mutate_heap_loop R rate n (Suc i) output h s1)"

definition mutate_heap ::
  "'s random_source \<Rightarrow> heap \<Rightarrow> addr \<Rightarrow> real \<Rightarrow> 's \<Rightarrow> error + (addr \<times> heap \<times> 's)" where
  "mutate_heap R h c rate s =
     (let (output, h1) = alloc h (h ! c)
      in case mutate_heap_loop R rate (length (h1 ! output)) 0 output h1 s of
           Inl e \<Rightarrow> Inl e
         | Inr (h2, s') \<Rightarrow> Inr (output, h2, s'))"

definition cross_heap ::
  "'s random_source \<Rightarrow> heap \<Rightarrow> addr \<Rightarrow> addr \<Rightarrow> real \<Rightarrow> 's \<Rightarrow> error + (addr \<times> heap \<times> 's)" where
  "cross_heap R h c1 c2 rate s =
     (let (output, h1) = alloc h (h ! c1);
          max_slice_point = int (length (zip (h1 ! c1) (h1 ! c2))) - 1;
          (u, s1) = rnd_random R s
      in if u \<le> rate
         then (case randint R 1 max_slice_point s1 of
                 Inl e \<Rightarrow> Inl e
               | Inr (slice_point, s2) \<Rightarrow>
                   (let (left, h2) = alloc h1 (take (nat slice_point) (h1 ! c1));
                        (right, h3) = alloc h2 (drop (nat slice_point) (h2 ! c2));
                        (output', h4) = alloc h3 (h3 ! left @ h3 ! right)
                    in Inr (output', h4, s2)))
         else Inr (output, h1, s1))"

lemma mutate_heap_loop_pure:
  assumes "output < length h"
  shows "mutate_heap_loop R rate n i output h s =
         map_sum id (\<lambda>(out, s'). (h[output := out], s')) (mutate_loop R rate n i (h ! output) s)"
  using assms
proof (induction n arbitrary: i h s)
  case 0
  then show ?case by simp
next
  case (Suc n)
  obtain u s1 where r: "rnd_random R s = (u, s1)" by (cases "rnd_random R s")
  show ?case
  proof (cases "u \<le> rate")
    case False
    with Suc.IH [OF Suc.prems, of "Suc i" s1] r show ?thesis by simp
  next
    case True
    show ?thesis
    proof (cases "sample1 R GREYCODE_keys s1")
      case (Inl e)
      with r True show ?thesis by simp
    next
      case (Inr p)
      obtain g s2 where p: "p = (g, s2)" by (cases p)
      let ?h = "h[output := (h ! output)[i := g]]"
      have l: "output < length ?h" using Suc.prems by simp
      have v: "?h ! output = (h ! output)[i := g]" using Suc.prems by simp
      have ov: "\<And>out. ?h[output := out] = h[output := out]" by simp
      from Suc.IH [OF l, of "Suc i" s2] r True Inr p show ?thesis
        by (simp add: v ov)
    qed
  qed
qed

lemma mutate_heap_pure:
  assumes "c < length h"
  shows "mutate_heap R h c rate s =
         map_sum id (\<lambda>(out, s'). (length h, h @ [out], s')) (mutate R (h ! c) rate s)"
proof -
  have l: "length h < length (h @ [h ! c])" by simp
  have v: "(h @ [h ! c]) ! length h = h ! c" by simp
  show ?thesis
    unfolding mutate_heap_def alloc_def Let_def prod.case mutate_heap_loop_pure [OF l] v
      mutate_def
    by (cases "mutate_loop R rate (length (h ! c)) 0 (h ! c) s") auto
qed

lemma cross_heap_pure:
  assumes "c1 < length h" "c2 < length h"
  shows "(\<forall>e. cross R (h ! c1) (h ! c2) rate s = Inl e \<longrightarrow>
            cross_heap R h c1 c2 rate s = Inl e) \<and>
         (\<forall>v s'. cross R (h ! c1) (h ! c2) rate s = Inr (v, s') \<longrightarrow>
            (\<exists>tmp. cross_heap R h c1 c2 rate s =
                     Inr (length h + length tmp, h @ tmp @ [v], s')))"
proof -
  obtain u s1 where r: "rnd_random R s = (u, s1)" by (cases "rnd_random R s")
  have n1: "(h @ [h ! c1]) ! c1 = h ! c1" "(h @ [h ! c1]) ! c2 = h ! c2"
    using assms by (simp_all add: nth_append)
  show ?thesis
  proof (cases "u \<le> rate")
    case False
    have "cross_heap R h c1 c2 rate s = Inr (length h + length ([] :: chromosome list),
            h @ [] @ [h ! c1], s1)"
      using r False by (simp add: cross_heap_def alloc_def)
    moreover have "cross R (h ! c1) (h ! c2) rate s = Inr (h ! c1, s1)"
      using r False by (simp add: cross_def Let_def)
    ultimately show ?thesis by (intro conjI allI impI exI [of _ "[]"]) simp_all
  next
    case True
    let ?m = "int (length (zip (h ! c1) (h ! c2))) - 1"
    show ?thesis
    proof (cases "randint R 1 ?m s1")
      case (Inl e)
      then have "cross_heap R h c1 c2 rate s = Inl e"
        using r True by (simp add: cross_heap_def alloc_def n1)
      moreover from Inl have "cross R (h ! c1) (h ! c2) rate s = Inl e"
        using r True by (simp add: cross_def Let_def)
      ultimately show ?thesis by simp
    next
      case (Inr q)
      obtain p s2 where q: "q = (p, s2)" by (cases q)
      let ?l = "take (nat p) (h ! c1)" and ?r = "drop (nat p) (h ! c2)"
      have n2: "(h @ [h ! c1, ?l]) ! c2 = h ! c2" using assms by (simp add: nth_append)
      have n3: "(h @ [h ! c1, ?l, ?r]) ! Suc (length h) = ?l"
        "(h @ [h ! c1, ?l, ?r]) ! Suc (Suc (length h)) = ?r"
        by (simp_all add: nth_append)
      have "cross_heap R h c1 c2 rate s =
            Inr (length h + length [h ! c1, ?l, ?r], h @ [h ! c1, ?l, ?r] @ [?l @ ?r], s2)"
        using r True Inr q by (simp add: cross_heap_def alloc_def n1 n2 n3)
      moreover have "cross R (h ! c1) (h ! c2) rate s = Inr (?l @ ?r, s2)"
        using r True Inr q by (simp add: cross_def Let_def)
      ultimately show ?thesis
        by (intro conjI allI impI exI [of _ "[h ! c1, ?l, ?r]"]) simp_all
    qed
  qed
qed

text \<open>
  Claim C9. mutate and cross work on a fresh copy: whenever they return, every list
  object that existed before the call, the inputs among them, holds what it held before,
  and the result is a list object that did not exist before the call, holding the
  chromosome computed from the inputs' contents. The two parents of cross may be the same
  object. On a well-behaved random source mutate always returns, and cross returns for
  parents of equal length of at least two genes.
\<close>

theorem operators_leave_inputs_unchanged:
  assumes "c < length h" and "c1 < length h" and "c2 < length h"
  shows "(\<forall>out h' s'. mutate_heap R h c rate s = Inr (out, h', s') \<longrightarrow>
            take (length h) h' = h \<and> h' ! c = h ! c \<and>
            length h \<le> out \<and> out < length h' \<and>
            mutate R (h ! c) rate s = Inr (h' ! out, s')) \<and>
         (\<forall>out h' s'. cross_heap R h c1 c2 rate s = Inr (out, h', s') \<longrightarrow>
            take (length h) h' = h \<and> h' ! c1 = h ! c1 \<and> h' ! c2 = h ! c2 \<and>
            length h \<le> out \<and> out < length h' \<and>
            cross R (h ! c1) (h ! c2) rate s = Inr (h' ! out, s')) \<and>
         (well_behaved R \<longrightarrow> (\<exists>out h' s'. mutate_heap R h c rate s = Inr (out, h', s'))) \<and>
         (well_behaved R \<and> length (h ! c1) = length (h ! c2) \<and> 2 \<le> length (h ! c1) \<longrightarrow>
            (\<exists>out h' s'. cross_heap R h c1 c2 rate s = Inr (out, h', s')))"
proof -
  have A: "\<forall>out h' s'. mutate_heap R h c rate s = Inr (out, h', s') \<longrightarrow>
            take (length h) h' = h \<and> h' ! c = h ! c \<and>
            length h \<le> out \<and> out < length h' \<and>
            mutate R (h ! c) rate s = Inr (h' ! out, s')"
  proof (intro allI impI)
    fix out h' s'
    assume m: "mutate_heap R h c rate s = Inr (out, h', s')"
    then obtain v where v: "mutate R (h ! c) rate s = Inr (v, s')"
      and o: "out = length h" and h': "h' = h @ [v]"
      unfolding mutate_heap_pure [OF assms(1)] by (auto simp: map_sum_Inr)
    show "take (length h) h' = h \<and> h' ! c = h ! c \<and>
              length h \<le> out \<and> out < length h' \<and>
              mutate R (h ! c) rate s = Inr (h' ! out, s')"
      using v o h' assms(1) by (simp add: nth_append)
  qed
  have B: "\<forall>out h' s'. cross_heap R h c1 c2 rate s = Inr (out, h', s') \<longrightarrow>
            take (length h) h' = h \<and> h' ! c1 = h ! c1 \<and> h' ! c2 = h ! c2 \<and>
            length h \<le> out \<and> out < length h' \<and>
            cross R (h ! c1) (h ! c2) rate s = Inr (h' ! out, s')"
  proof (intro allI impI)
    fix out h' s'
    assume x: "cross_heap R h c1 c2 rate s = Inr (out, h', s')"
    note P = cross_heap_pure [OF assms(2,3), of R rate s]
    show "take (length h) h' = h \<and> h' ! c1 = h ! c1 \<and> h' ! c2 = h ! c2 \<and>
              length h \<le> out \<and> out < length h' \<and>
              cross R (h ! c1) (h ! c2) rate s = Inr (h' ! out, s')"
    proof (cases "cross R (h ! c1) (h ! c2) rate s")
      case (Inl e)
      with P x show ?thesis by simp
    next
      case (Inr q)
      obtain v s2 where q: "q = (v, s2)" by (cases q)
      from P Inr q obtain tmp where
        "cross_heap R h c1 c2 rate s = Inr (length h + length tmp, h @ tmp @ [v], s2)"
        by blast
      with x have o: "out = length h + length tmp" and h': "h' = h @ tmp @ [v]"
        and s2: "s' = s2" by simp_all
      show ?thesis
        using Inr q o h' s2 assms(2,3) by (simp add: nth_append)
    qed
  qed
  have C: "well_behaved R \<longrightarrow> (\<exists>out h' s'. mutate_heap R h c rate s = Inr (out, h', s'))"
  proof
    assume "well_behaved R"
    from mutate_spec [OF this, of "h ! c" rate s] obtain v s' where
      "mutate R (h ! c) rate s = Inr (v, s')" by blast
    then show "\<exists>out h' s'. mutate_heap R h c rate s = Inr (out, h', s')"
      unfolding mutate_heap_pure [OF assms(1)] by simp
  qed
  have D: "well_behaved R \<and> length (h ! c1) = length (h ! c2) \<and> 2 \<le> length (h ! c1) \<longrightarrow>
            (\<exists>out h' s'. cross_heap R h c1 c2 rate s = Inr (out, h', s'))"
  proof
    assume a: "well_behaved R \<and> length (h ! c1) = length (h ! c2) \<and> 2 \<le> length (h ! c1)"
    then have wb: "well_behaved R" and l: "length (h ! c1) = length (h ! c2)"
      and g: "2 \<le> length (h ! c1)" by simp_all
    from cross_spec [OF wb l g, of s] obtain p s2 where
      cr: "\<forall>rate. fst (rnd_random R s) \<le> rate \<longrightarrow>
              cross R (h ! c1) (h ! c2) rate s = Inr (take p (h ! c1) @ drop p (h ! c2), s2)" and
      copy: "\<forall>rate. rate < fst (rnd_random R s) \<longrightarrow>
              cross R (h ! c1) (h ! c2) rate s = Inr (h ! c1, snd (rnd_random R s))"
      by blast
    have "\<exists>v s'. cross R (h ! c1) (h ! c2) rate s = Inr (v, s')"
    proof (cases "fst (rnd_random R s) \<le> rate")
      case True
      with cr show ?thesis by blast
    next
      case False
      then have "rate < fst (rnd_random R s)" by simp
      with copy show ?thesis by blast
    qed
    with cross_heap_pure [OF assms(2,3), of R rate s]
    show "\<exists>out h' s'. cross_heap R h c1 c2 rate s = Inr (out, h', s')" by blast
  qed
  from A B C D show ?thesis by (intro conjI)
qed

theorem operators_leave_inputs_unchanged_witness:
  "(0 :: nat) < length [[''0000'', ''0001'']] \<and>
   mutate_heap example_source [[''0000'', ''0001'']] 0 (1 / 4) 3 =
     Inr (1, [[''0000'', ''0001''], [''0000'', ''0101'']], 6) \<and>
   cross_heap example_source [[''0000'', ''0001'']] 0 0 1 2 =
     Inr (4, [[''0000'', ''0001''], [''0000'', ''0001''], [''0000''], [''0001''],
              [''0000'', ''0001'']], 4) \<and>
   mutate example_source [''0000'', ''0001''] (1 / 4) 3 = Inr ([''0000'', ''0101''], 6)"
proof -
  let ?h = "[[''0000'', ''0001'']]"
  have a: "(0 :: nat) < length ?h" by simp
  have k: "GREYCODE_keys ! 5 = ''0101''" by (simp add: GREYCODE_keys_def GREYCODE_def)
  have sm: "\<And>s. sample1 example_source GREYCODE_keys s =
                 Inr (GREYCODE_keys ! (s mod 14), Suc s)"
    using length_GREYCODE_keys by (simp add: sample1_def example_source_def)
  have r: "\<And>s. rnd_random example_source s = (if even s then 0 else 1 / 2, Suc s)"
    by (simp add: example_source_def)
  have l: "mutate_heap_loop example_source (1 / 4) (Suc (Suc 0)) 0 1
             [[''0000'', ''0001''], [''0000'', ''0001'']] 3 =
           Inr ([[''0000'', ''0001''], [''0000'', ''0101'']], 6)"
    by (simp add: r sm k)
  have m: "mutate_heap example_source ?h 0 (1 / 4) 3 =
     Inr (1, [[''0000'', ''0001''], [''0000'', ''0101'']], 6)"
    using l by (simp add: mutate_heap_def alloc_def)
  have ri: "randint example_source 1 1 (3 :: nat) = Inr (1, 4)"
    by (simp add: randint_def example_source_def)
  have x: "cross_heap example_source ?h 0 0 1 2 =
     Inr (4, [[''0000'', ''0001''], [''0000'', ''0001''], [''0000''], [''0001''],
              [''0000'', ''0001'']], 4)"
    using ri by (simp add: cross_heap_def alloc_def r)
  note t = operators_leave_inputs_unchanged [OF a a a, of example_source "1 / 4" 3]
  from conjunct1 [OF t] m
  have "mutate example_source (?h ! 0) (1 / 4) 3 =
        Inr ([[''0000'', ''0001''], [''0000'', ''0101'']] ! 1, 6)"
    by blast
  then have "mutate example_source [''0000'', ''0001''] (1 / 4) 3 =
     Inr ([''0000'', ''0101''], 6)" by simp
  with a m x show ?thesis by blast
qed

end
